theory Spec2Isabelle
  imports Main "HOL-Library.Word"
begin

section \<open>Concurrency-bounded reader: \<^verbatim>\<open>pkg/storage/storagewrappers/boundedconcurrency.go\<close>\<close>

subsection \<open>The wrapped reader\<close>

text \<open>
  A \<^verbatim>\<open>context.Context\<close> is identified by a number; what \<^verbatim>\<open>ctx.Err()\<close> answers and the
  attributes of the span carried by the context are part of the system state below,
  keyed by that number. The types of tuple keys \<open>'k\<close>, userset filters \<open>'f\<close>, tuples
  \<open>'t\<close>, tuple iterators \<open>'i\<close> and errors \<open>'e\<close> are declared in packages that are
  not among the sources at hand and stay type parameters; an absent error is \<open>None\<close>.
\<close>

type_synonym Context = nat

datatype ctx_error = Canceled | DeadlineExceeded

text \<open>
  The interface \<^verbatim>\<open>storage.RelationshipTupleReader\<close>, restricted to the three methods the
  decorator overrides. An implementation is any triple of functions: each sees the
  context, what \<^verbatim>\<open>ctx.Err()\<close> answers when it runs, the store, the key or filter and
  the state \<open>'w\<close> of the storage behind it, and returns its two results and the next
  storage state.
\<close>

record ('k, 'f, 't, 'i, 'e, 'w) RelationshipTupleReader =
  rd_ReadUserTuple ::
    "Context \<Rightarrow> ctx_error option \<Rightarrow> string \<Rightarrow> 'k \<Rightarrow> 'w \<Rightarrow> ('t \<times> 'e option) \<times> 'w"
  rd_Read ::
    "Context \<Rightarrow> ctx_error option \<Rightarrow> string \<Rightarrow> 'k \<Rightarrow> 'w \<Rightarrow> ('i \<times> 'e option) \<times> 'w"
  rd_ReadUsersetTuples ::
    "Context \<Rightarrow> ctx_error option \<Rightarrow> string \<Rightarrow> 'f \<Rightarrow> 'w \<Rightarrow> ('i \<times> 'e option) \<times> 'w"

text \<open>A call of one of the three methods with its arguments, and what a call returns.\<close>

datatype ('k, 'f) call =
    ReadUserTuple Context string 'k
  | Read Context string 'k
  | ReadUsersetTuples Context string 'f

datatype ('t, 'i, 'e) reply =
    Tuple_reply 't "'e option"
  | Iterator_reply 'i "'e option"

fun call_ctx :: "('k, 'f) call \<Rightarrow> Context" where
  "call_ctx (ReadUserTuple ctx store tupleKey) = ctx"
| "call_ctx (Read ctx store tupleKey) = ctx"
| "call_ctx (ReadUsersetTuples ctx store flt) = ctx"

text \<open>
  The three \<^verbatim>\<open>return b.RelationshipTupleReader.M(ctx, store, ...)\<close> lines: the method of
  the same name of the wrapped reader, on the arguments of the call.
\<close>

fun delegate ::
  "('k, 'f, 't, 'i, 'e, 'w) RelationshipTupleReader \<Rightarrow> ('k, 'f) call \<Rightarrow> ctx_error option
     \<Rightarrow> 'w \<Rightarrow> ('t, 'i, 'e) reply \<times> 'w" where
  "delegate rd (ReadUserTuple ctx store tupleKey) cerr w =
     (case rd_ReadUserTuple rd ctx cerr store tupleKey w of
        ((t, err), w') \<Rightarrow> (Tuple_reply t err, w'))"
| "delegate rd (Read ctx store tupleKey) cerr w =
     (case rd_Read rd ctx cerr store tupleKey w of
        ((it, err), w') \<Rightarrow> (Iterator_reply it err, w'))"
| "delegate rd (ReadUsersetTuples ctx store flt) cerr w =
     (case rd_ReadUsersetTuples rd ctx cerr store flt w of
        ((it, err), w') \<Rightarrow> (Iterator_reply it err, w'))"

subsection \<open>The limiter channel\<close>

text \<open>
  \<^verbatim>\<open>limiter chan struct{}\<close>: the elements carry no data, so a channel is its capacity
  and the number of elements buffered. A send completes at once when the buffer has
  room and a receive when the buffer is not empty; otherwise the operation blocks
  (\<open>None\<close>). With capacity 0 the channel is unbuffered and a send completes only
  together with a receive; that is the event \<open>Handoff\<close> below.
\<close>

record chan =
  chan_cap :: nat
  chan_len :: nat

definition make_chan :: "nat \<Rightarrow> chan" where
  "make_chan n = \<lparr>chan_cap = n, chan_len = 0\<rparr>"

definition chan_send :: "chan \<Rightarrow> chan option" where
  "chan_send c = (if chan_len c < chan_cap c then Some (c\<lparr>chan_len := chan_len c + 1\<rparr>)
                  else None)"

definition chan_recv :: "chan \<Rightarrow> chan option" where
  "chan_recv c = (if 0 < chan_len c then Some (c\<lparr>chan_len := chan_len c - 1\<rparr>)
                  else None)"

subsection \<open>Telemetry\<close>

text \<open>
  \<^verbatim>\<open>boundedReadDelayMsHistogram\<close>: the histogram's name, help text and bucket boundaries
  as the source gives them, and the values passed to \<^verbatim>\<open>Observe\<close> so far, in order. The
  observed values are whole milliseconds (\<^verbatim>\<open>float64(timeWaiting)\<close> of an \<^verbatim>\<open>int64\<close> below
  \<open>2 ^ 53\<close>, hence exact) and are kept as integers; the native-histogram options play no
  part here.
\<close>

record Histogram =
  hist_Name :: string
  hist_Help :: string
  hist_Buckets :: "int list"
  observed :: "int list"

definition boundedReadDelayMsHistogram :: Histogram where
  "boundedReadDelayMsHistogram =
     \<lparr>hist_Name = ''datastore_bounded_read_delay_ms'',
      hist_Help =
        ''Time spent waiting for Read, ReadUserTuple and ReadUsersetTuples calls to the datastore'',
      hist_Buckets = [1, 3, 5, 10, 25, 50, 100, 1000, 5000],
      observed = []\<rparr>"

definition Observe :: "int \<Rightarrow> Histogram \<Rightarrow> Histogram" where
  "Observe v h = h\<lparr>observed := observed h @ [v]\<rparr>"

definition timeWaitingSpanAttribute :: string where
  "timeWaitingSpanAttribute = ''time_waiting''"

text \<open>
  Clock readings are nanoseconds. \<^verbatim>\<open>end.Sub(start)\<close> is the difference as a
  \<^verbatim>\<open>time.Duration\<close>, an \<^verbatim>\<open>int64\<close> that saturates at its bounds; \<^verbatim>\<open>Milliseconds()\<close> is Go's
  integer division by \<open>10^6\<close>, which truncates toward zero.
\<close>

definition Sub :: "int \<Rightarrow> int \<Rightarrow> int" where
  "Sub end_t start = max (- (2 ^ 63)) (min (2 ^ 63 - 1) (end_t - start))"

definition Milliseconds :: "int \<Rightarrow> int" where
  "Milliseconds d = (if 0 \<le> d then d div 1000000 else - ((- d) div 1000000))"

subsection \<open>The decorator and the calls in flight\<close>

text \<open>
  The struct \<^verbatim>\<open>boundedConcurrencyTupleReader\<close>: \<open>wrapped_reader\<close> is its embedded field
  \<^verbatim>\<open>storage.RelationshipTupleReader\<close>, \<open>limiter\<close> its channel. The constructor makes the
  channel with the capacity it is given, a \<^verbatim>\<open>uint32\<close>.
\<close>

record ('k, 'f, 't, 'i, 'e, 'w) boundedConcurrencyTupleReader =
  wrapped_reader :: "('k, 'f, 't, 'i, 'e, 'w) RelationshipTupleReader"
  limiter :: chan

definition NewBoundedConcurrencyTupleReader ::
  "('k, 'f, 't, 'i, 'e, 'w) RelationshipTupleReader \<Rightarrow> 32 word
     \<Rightarrow> ('k, 'f, 't, 'i, 'e, 'w) boundedConcurrencyTupleReader" where
  "NewBoundedConcurrencyTupleReader wrapped concurrency =
     \<lparr>wrapped_reader = wrapped, limiter = make_chan (unat concurrency)\<rparr>"

text \<open>
  Where a call of \<^verbatim>\<open>ReadUserTuple\<close>, \<^verbatim>\<open>Read\<close> or \<^verbatim>\<open>ReadUsersetTuples\<close> stands. The three
  methods have the same body, so one set of control points serves all three:
  \<^item> \<open>Sending call start\<close>: inside \<^verbatim>\<open>waitForLimiter\<close>, \<^verbatim>\<open>start := time.Now()\<close> done, at
    the send \<^verbatim>\<open>b.limiter <- struct{}{}\<close>;
  \<^item> \<open>Sent call start\<close>: the send done, before \<^verbatim>\<open>end := time.Now()\<close> and the two
    telemetry calls;
  \<^item> \<open>Delegating call\<close>: \<^verbatim>\<open>waitForLimiter\<close> returned and the release deferred, inside
    the wrapped reader's method;
  \<^item> \<open>Deferred call r\<close>: the wrapped reader returned \<open>r\<close>, at the deferred receive
    \<^verbatim>\<open><-b.limiter\<close>;
  \<^item> \<open>Returned call r\<close>: the method returned \<open>r\<close> to its caller, who holds it from then
    on (an iterator stays open until the caller stops it).
\<close>

datatype ('k, 'f, 't, 'i, 'e) pc =
    Sending "('k, 'f) call" int
  | Sent "('k, 'f) call" int
  | Delegating "('k, 'f) call"
  | Deferred "('k, 'f) call" "('t, 'i, 'e) reply"
  | Returned "('k, 'f) call" "('t, 'i, 'e) reply"

text \<open>
  The state shared by the goroutines that call into one reader instance: the reader
  with its channel, the storage behind the wrapped reader, the clock, the contexts'
  errors, the histogram, the span attributes set so far per context, and the calls
  made so far with their control points (a call is named by its index).
\<close>

record ('k, 'f, 't, 'i, 'e, 'w) system =
  reader :: "('k, 'f, 't, 'i, 'e, 'w) boundedConcurrencyTupleReader"
  backend :: 'w
  clock :: int
  ctx_err :: "Context \<Rightarrow> ctx_error option"
  histogram :: Histogram
  span_attributes :: "Context \<Rightarrow> (string \<times> int) list"
  calls :: "('k, 'f, 't, 'i, 'e) pc list"

definition boot ::
  "('k, 'f, 't, 'i, 'e, 'w) boundedConcurrencyTupleReader \<Rightarrow> 'w \<Rightarrow> int
     \<Rightarrow> ('k, 'f, 't, 'i, 'e, 'w) system" where
  "boot b w t =
     \<lparr>reader = b, backend = w, clock = t, ctx_err = (\<lambda>ctx. None),
      histogram = boundedReadDelayMsHistogram, span_attributes = (\<lambda>ctx. []), calls = []\<rparr>"

text \<open>
  One step of call \<open>c\<close>, from its control point to the next. \<open>None\<close>: the call cannot
  move (it is blocked on the channel, or it has returned).
\<close>

definition step ::
  "nat \<Rightarrow> ('k, 'f, 't, 'i, 'e, 'w) system \<Rightarrow> ('k, 'f, 't, 'i, 'e, 'w) system option" where
  "step c s =
     (case calls s ! c of
        Sending call start \<Rightarrow>
          (case chan_send (limiter (reader s)) of
             None \<Rightarrow> None
           | Some l \<Rightarrow>
               Some (s\<lparr>reader := (reader s)\<lparr>limiter := l\<rparr>,
                       calls := (calls s)[c := Sent call start]\<rparr>))
      | Sent call start \<Rightarrow>
          (let end_t = clock s;
               timeWaiting = Milliseconds (Sub end_t start);
               ctx = call_ctx call
           in Some (s\<lparr>histogram := Observe timeWaiting (histogram s),
                      span_attributes :=
                        (span_attributes s)
                          (ctx := span_attributes s ctx
                                    @ [(timeWaitingSpanAttribute, timeWaiting)]),
                      calls := (calls s)[c := Delegating call]\<rparr>))
      | Delegating call \<Rightarrow>
          (case delegate (wrapped_reader (reader s)) call (ctx_err s (call_ctx call))
                  (backend s) of
             (r, w') \<Rightarrow>
               Some (s\<lparr>backend := w', calls := (calls s)[c := Deferred call r]\<rparr>))
      | Deferred call r \<Rightarrow>
          (case chan_recv (limiter (reader s)) of
             None \<Rightarrow> None
           | Some l \<Rightarrow>
               Some (s\<lparr>reader := (reader s)\<lparr>limiter := l\<rparr>,
                       calls := (calls s)[c := Returned call r]\<rparr>))
      | Returned call r \<Rightarrow> None)"

text \<open>
  What can happen to the system: a goroutine enters one of the three methods (the new
  call reads the clock and stands at the send); a call takes a step; on an unbuffered
  channel a blocked sender and a blocked receiver complete together; time passes; a
  context's cancellation or deadline signal fires (the first error of a context stays).
\<close>

datatype ('k, 'f) event =
    Invoke "('k, 'f) call"
  | Step nat
  | Handoff nat nat
  | Tick nat
  | Done_fires Context ctx_error

fun fire ::
  "('k, 'f) event \<Rightarrow> ('k, 'f, 't, 'i, 'e, 'w) system
     \<Rightarrow> ('k, 'f, 't, 'i, 'e, 'w) system option" where
  "fire (Invoke call) s = Some (s\<lparr>calls := calls s @ [Sending call (clock s)]\<rparr>)"
| "fire (Step c) s = (if c < length (calls s) then step c s else None)"
| "fire (Handoff sn rc) s =
     (if chan_cap (limiter (reader s)) = 0 \<and> sn < length (calls s) \<and> rc < length (calls s)
      then (case calls s ! sn of
              Sending call start \<Rightarrow>
                (case calls s ! rc of
                   Deferred call' r \<Rightarrow>
                     Some (s\<lparr>calls := (calls s)[sn := Sent call start,
                                                  rc := Returned call' r]\<rparr>)
                 | _ \<Rightarrow> None)
            | _ \<Rightarrow> None)
      else None)"
| "fire (Tick d) s = Some (s\<lparr>clock := clock s + int d\<rparr>)"
| "fire (Done_fires ctx cerr) s =
     Some (s\<lparr>ctx_err := (ctx_err s)
              (ctx := Some (case ctx_err s ctx of None \<Rightarrow> cerr | Some first \<Rightarrow> first))\<rparr>)"

fun run ::
  "('k, 'f) event list \<Rightarrow> ('k, 'f, 't, 'i, 'e, 'w) system
     \<Rightarrow> ('k, 'f, 't, 'i, 'e, 'w) system option" where
  "run [] s = Some s"
| "run (ev # evs) s = (case fire ev s of None \<Rightarrow> None | Some s' \<Rightarrow> run evs s')"

inductive reachable ::
  "('k, 'f, 't, 'i, 'e, 'w) system \<Rightarrow> ('k, 'f, 't, 'i, 'e, 'w) system \<Rightarrow> bool"
  for s0 where
  start: "reachable s0 s0"
| after: "reachable s0 s \<Longrightarrow> fire ev s = Some s' \<Longrightarrow> reachable s0 s'"

text \<open>Counting the calls at given control points.\<close>

fun holds_unit :: "('k, 'f, 't, 'i, 'e) pc \<Rightarrow> bool" where
  "holds_unit (Sent call start) = True"
| "holds_unit (Delegating call) = True"
| "holds_unit (Deferred call r) = True"
| "holds_unit _ = False"

fun in_wrapped :: "('k, 'f, 't, 'i, 'e) pc \<Rightarrow> bool" where
  "in_wrapped (Delegating call) = True"
| "in_wrapped _ = False"

fun waited :: "('k, 'f, 't, 'i, 'e) pc \<Rightarrow> bool" where
  "waited (Sending call start) = False"
| "waited (Sent call start) = False"
| "waited _ = True"

fun holds_iterator :: "('k, 'f, 't, 'i, 'e) pc \<Rightarrow> bool" where
  "holds_iterator (Returned call (Iterator_reply it None)) = True"
| "holds_iterator _ = False"

definition held_units :: "('k, 'f, 't, 'i, 'e, 'w) system \<Rightarrow> nat" where
  "held_units s = length (filter holds_unit (calls s))"

definition executing :: "('k, 'f, 't, 'i, 'e, 'w) system \<Rightarrow> nat" where
  "executing s = length (filter in_wrapped (calls s))"

definition waits_completed :: "('k, 'f, 't, 'i, 'e, 'w) system \<Rightarrow> nat" where
  "waits_completed s = length (filter waited (calls s))"

definition open_iterators :: "('k, 'f, 't, 'i, 'e, 'w) system \<Rightarrow> nat" where
  "open_iterators s = length (filter holds_iterator (calls s))"

fun pc_call :: "('k, 'f, 't, 'i, 'e) pc \<Rightarrow> ('k, 'f) call" where
  "pc_call (Sending call start) = call"
| "pc_call (Sent call start) = call"
| "pc_call (Delegating call) = call"
| "pc_call (Deferred call r) = call"
| "pc_call (Returned call r) = call"

fun pc_reply :: "('k, 'f, 't, 'i, 'e) pc \<Rightarrow> ('t, 'i, 'e) reply option" where
  "pc_reply (Deferred call r) = Some r"
| "pc_reply (Returned call r) = Some r"
| "pc_reply _ = None"

fun is_Sending :: "('k, 'f, 't, 'i, 'e) pc \<Rightarrow> bool" where
  "is_Sending (Sending call start) = True"
| "is_Sending _ = False"

definition waits_completed_for :: "Context \<Rightarrow> ('k, 'f, 't, 'i, 'e, 'w) system \<Rightarrow> nat" where
  "waits_completed_for ctx s =
     length (filter (\<lambda>p. waited p \<and> call_ctx (pc_call p) = ctx) (calls s))"

fun is_iterator_call :: "('k, 'f) call \<Rightarrow> bool" where
  "is_iterator_call (ReadUserTuple ctx store tupleKey) = False"
| "is_iterator_call (Read ctx store tupleKey) = True"
| "is_iterator_call (ReadUsersetTuples ctx store flt) = True"

fun started_by :: "int \<Rightarrow> ('k, 'f, 't, 'i, 'e) pc \<Rightarrow> bool" where
  "started_by now (Sending call start) = (start \<le> now)"
| "started_by now (Sent call start) = (start \<le> now)"
| "started_by now _ = True"

text \<open>
  Three invariants of the system. The units held are the elements buffered in the
  channel, within its capacity. The histogram keeps its buckets and has one observation
  per completed wait, and each context's span has one attribute per completed wait of
  a call with that context, all under the key \<^verbatim>\<open>time_waiting\<close>. No call has read a
  start time later than the clock.
\<close>

definition limiter_ok :: "('k, 'f, 't, 'i, 'e, 'w) system \<Rightarrow> bool" where
  "limiter_ok s \<longleftrightarrow>
     held_units s = chan_len (limiter (reader s))
     \<and> chan_len (limiter (reader s)) \<le> chan_cap (limiter (reader s))"

definition telemetry_ok :: "('k, 'f, 't, 'i, 'e, 'w) system \<Rightarrow> bool" where
  "telemetry_ok s \<longleftrightarrow>
     hist_Buckets (histogram s) = [1, 3, 5, 10, 25, 50, 100, 1000, 5000]
     \<and> length (observed (histogram s)) = waits_completed s
     \<and> (\<forall>ctx. length (span_attributes s ctx) = waits_completed_for ctx s)
     \<and> (\<forall>ctx. list_all (\<lambda>kv. fst kv = timeWaitingSpanAttribute) (span_attributes s ctx))"

definition clock_ok :: "('k, 'f, 't, 'i, 'e, 'w) system \<Rightarrow> bool" where
  "clock_ok s \<longleftrightarrow> (\<forall>p \<in> set (calls s). started_by (clock s) p)"

subsection \<open>The wrapped reader called directly\<close>

text \<open>
  The same callers with no decorator in between, for comparison. It is written from
  the words of the property and not from the decorator's code: what the wrapped reader
  returns for a call is \<open>wrapped_reader_returns\<close>, its method of the same name applied
  to the context, store and key or filter of the call, with the value and the error it
  gives, both as they are, and the storage state it leaves. A call is asked of the
  wrapped reader and later answered by it. \<open>abstraction\<close> forgets the channel and the
  telemetry of a system state: a call the wrapped reader has not yet returned from
  counts as asked, one it has returned from as answered.
\<close>

fun wrapped_reader_returns ::
  "('k, 'f, 't, 'i, 'e, 'w) RelationshipTupleReader \<Rightarrow> ('k, 'f) call \<Rightarrow> ctx_error option
     \<Rightarrow> 'w \<Rightarrow> ('t, 'i, 'e) reply \<times> 'w" where
  "wrapped_reader_returns rd (ReadUserTuple ctx store tupleKey) cerr w =
     (Tuple_reply (fst (fst (rd_ReadUserTuple rd ctx cerr store tupleKey w)))
                  (snd (fst (rd_ReadUserTuple rd ctx cerr store tupleKey w))),
      snd (rd_ReadUserTuple rd ctx cerr store tupleKey w))"
| "wrapped_reader_returns rd (Read ctx store tupleKey) cerr w =
     (Iterator_reply (fst (fst (rd_Read rd ctx cerr store tupleKey w)))
                     (snd (fst (rd_Read rd ctx cerr store tupleKey w))),
      snd (rd_Read rd ctx cerr store tupleKey w))"
| "wrapped_reader_returns rd (ReadUsersetTuples ctx store flt) cerr w =
     (Iterator_reply (fst (fst (rd_ReadUsersetTuples rd ctx cerr store flt w)))
                     (snd (fst (rd_ReadUsersetTuples rd ctx cerr store flt w))),
      snd (rd_ReadUsersetTuples rd ctx cerr store flt w))"

datatype ('k, 'f, 't, 'i, 'e) direct_pc =
    Asked "('k, 'f) call"
  | Answered "('k, 'f) call" "('t, 'i, 'e) reply"

record ('k, 'f, 't, 'i, 'e, 'w) direct_system =
  d_backend :: 'w
  d_ctx_err :: "Context \<Rightarrow> ctx_error option"
  d_calls :: "('k, 'f, 't, 'i, 'e) direct_pc list"

datatype ('k, 'f) direct_event =
    Ask "('k, 'f) call"
  | Answer nat
  | Direct_Done_fires Context ctx_error

fun direct_fire ::
  "('k, 'f, 't, 'i, 'e, 'w) RelationshipTupleReader \<Rightarrow> ('k, 'f) direct_event
     \<Rightarrow> ('k, 'f, 't, 'i, 'e, 'w) direct_system
     \<Rightarrow> ('k, 'f, 't, 'i, 'e, 'w) direct_system option" where
  "direct_fire rd (Ask call) s = Some (s\<lparr>d_calls := d_calls s @ [Asked call]\<rparr>)"
| "direct_fire rd (Answer c) s =
     (if c < length (d_calls s)
      then (case d_calls s ! c of
              Asked call \<Rightarrow>
                (case wrapped_reader_returns rd call (d_ctx_err s (call_ctx call))
                        (d_backend s) of
                   (r, w') \<Rightarrow>
                     Some (s\<lparr>d_backend := w',
                             d_calls := (d_calls s)[c := Answered call r]\<rparr>))
            | Answered call r \<Rightarrow> None)
      else None)"
| "direct_fire rd (Direct_Done_fires ctx cerr) s =
     Some (s\<lparr>d_ctx_err := (d_ctx_err s)
              (ctx := Some (case d_ctx_err s ctx of None \<Rightarrow> cerr | Some first \<Rightarrow> first))\<rparr>)"

inductive direct_reachable ::
  "('k, 'f, 't, 'i, 'e, 'w) RelationshipTupleReader
     \<Rightarrow> ('k, 'f, 't, 'i, 'e, 'w) direct_system
     \<Rightarrow> ('k, 'f, 't, 'i, 'e, 'w) direct_system \<Rightarrow> bool"
  for rd s0 where
  direct_start: "direct_reachable rd s0 s0"
| direct_after:
    "direct_reachable rd s0 s \<Longrightarrow> direct_fire rd ev s = Some s' \<Longrightarrow> direct_reachable rd s0 s'"

fun abs_pc :: "('k, 'f, 't, 'i, 'e) pc \<Rightarrow> ('k, 'f, 't, 'i, 'e) direct_pc" where
  "abs_pc (Sending call start) = Asked call"
| "abs_pc (Sent call start) = Asked call"
| "abs_pc (Delegating call) = Asked call"
| "abs_pc (Deferred call r) = Answered call r"
| "abs_pc (Returned call r) = Answered call r"

definition abstraction ::
  "('k, 'f, 't, 'i, 'e, 'w) system \<Rightarrow> ('k, 'f, 't, 'i, 'e, 'w) direct_system" where
  "abstraction s =
     \<lparr>d_backend = backend s, d_ctx_err = ctx_err s, d_calls = map abs_pc (calls s)\<rparr>"

subsection \<open>A small wrapped reader for concrete runs\<close>

text \<open>
  Keys, filters and tuples are numbers, an iterator is the list of tuples it will
  yield, and the storage state counts the reads served. Every read succeeds.
\<close>

definition echo_reader :: "(nat, nat, nat, nat list, string, nat) RelationshipTupleReader" where
  "echo_reader =
     \<lparr>rd_ReadUserTuple = (\<lambda>ctx cerr store tupleKey w. ((tupleKey, None), Suc w)),
      rd_Read = (\<lambda>ctx cerr store tupleKey w. (([tupleKey], None), Suc w)),
      rd_ReadUsersetTuples = (\<lambda>ctx cerr store flt w. (([flt], None), Suc w))\<rparr>"

definition echo_system :: "32 word \<Rightarrow> (nat, nat, nat, nat list, string, nat) system" where
  "echo_system C = boot (NewBoundedConcurrencyTupleReader echo_reader C) 0 0"

text \<open>
  A second one whose answers show everything it was given: a tuple and an iterator
  list the context, the length of the store name, the key or filter and the storage
  state; a done context gives an error, and so does key or filter 0.
\<close>

definition probe_answer :: "Context \<Rightarrow> ctx_error option \<Rightarrow> string \<Rightarrow> nat \<Rightarrow> nat
     \<Rightarrow> (nat list \<times> string option) \<times> nat" where
  "probe_answer ctx cerr store x w =
     (([ctx, length store, x, w],
       (if cerr \<noteq> None then Some ''context done''
        else if x = 0 then Some ''not found'' else None)),
      Suc w)"

definition probe_reader ::
  "(nat, nat, nat list, nat list, string, nat) RelationshipTupleReader" where
  "probe_reader =
     \<lparr>rd_ReadUserTuple = probe_answer, rd_Read = probe_answer,
      rd_ReadUsersetTuples = (\<lambda>ctx cerr store flt w. probe_answer ctx cerr store (flt + 1000) w)\<rparr>"

definition probe_system ::
  "32 word \<Rightarrow> (nat, nat, nat list, nat list, string, nat) system" where
  "probe_system C = boot (NewBoundedConcurrencyTupleReader probe_reader C) 0 0"

section \<open>Migration 005: forward and backward steps\<close>

text \<open>
  \<^verbatim>\<open>up005\<close> and \<^verbatim>\<open>down005\<close> receive a transaction handle and run a fixed list of
  statements through \<^verbatim>\<open>tx.ExecContext(ctx, stmt)\<close>. The database driver is not part of
  the repository, so it is a parameter \<open>drv\<close>: given the context, a statement and the
  connection state it yields an optional error and the next connection state. The
  transaction handle carries the connection state and the list of statements handed to
  the driver so far, in order.
\<close>

record 'db Tx =
  conn :: 'db
  sent :: "string list"

type_synonym ('c, 'db, 'e) driver = "'c \<Rightarrow> string \<Rightarrow> 'db \<Rightarrow> 'e option \<times> 'db"

definition ExecContext ::
  "('c, 'db, 'e) driver \<Rightarrow> 'c \<Rightarrow> string \<Rightarrow> 'db Tx \<Rightarrow> 'e option \<times> 'db Tx" where
  "ExecContext drv ctx stmt tx =
     (case drv ctx stmt (conn tx) of
        (err, d) \<Rightarrow> (err, \<lparr>conn = d, sent = sent tx @ [stmt]\<rparr>))"

text \<open>
  The loop \<^verbatim>\<open>for _, stmt := range stmts { _, err := tx.ExecContext(ctx, stmt);
  if err != nil { return err } }; return nil\<close>.
\<close>

fun exec_stmts ::
  "('c, 'db, 'e) driver \<Rightarrow> 'c \<Rightarrow> string list \<Rightarrow> 'db Tx \<Rightarrow> 'e option \<times> 'db Tx" where
  "exec_stmts drv ctx [] tx = (None, tx)"
| "exec_stmts drv ctx (stmt # rest) tx =
     (case ExecContext drv ctx stmt tx of
        (Some err, tx') \<Rightarrow> (Some err, tx')
      | (None, tx') \<Rightarrow> exec_stmts drv ctx rest tx')"

definition up005_stmts :: "string list" where
  "up005_stmts =
     [''ALTER TABLE tuple ADD COLUMN condition_name TEXT, ADD COLUMN condition_context BYTEA;'',
      ''ALTER TABLE changelog ADD COLUMN condition_name TEXT, ADD COLUMN condition_context BYTEA;'']"

definition down005_stmts :: "string list" where
  "down005_stmts =
     [''ALTER TABLE tuple DROP COLUMN condition_name, DROP COLUMN condition_context;'',
      ''ALTER TABLE changelog DROP COLUMN condition_name, DROP COLUMN condition_context;'']"

definition up005 :: "('c, 'db, 'e) driver \<Rightarrow> 'c \<Rightarrow> 'db Tx \<Rightarrow> 'e option \<times> 'db Tx" where
  "up005 drv ctx tx = exec_stmts drv ctx up005_stmts tx"

definition down005 :: "('c, 'db, 'e) driver \<Rightarrow> 'c \<Rightarrow> 'db Tx \<Rightarrow> 'e option \<times> 'db Tx" where
  "down005 drv ctx tx = exec_stmts drv ctx down005_stmts tx"

text \<open>
  Vocabulary for stating what a step did. \<open>conn_after\<close> is the connection state once
  the given statements have all gone through the driver; \<open>outcome\<close> is what the driver
  answers for the \<open>i\<close>-th statement of the list when the earlier ones have gone through.
\<close>

definition conn_after :: "('c, 'db, 'e) driver \<Rightarrow> 'c \<Rightarrow> string list \<Rightarrow> 'db \<Rightarrow> 'db" where
  "conn_after drv ctx stmts d = fold (\<lambda>stmt d'. snd (drv ctx stmt d')) stmts d"

definition outcome ::
  "('c, 'db, 'e) driver \<Rightarrow> 'c \<Rightarrow> string list \<Rightarrow> 'db \<Rightarrow> nat \<Rightarrow> 'e option" where
  "outcome drv ctx stmts d i = fst (drv ctx (stmts ! i) (conn_after drv ctx (take i stmts) d))"

section \<open>Composition root: \<^verbatim>\<open>cmd/openfga/openfga.go\<close>\<close>

text \<open>
  The process configuration \<^verbatim>\<open>svcConfig\<close>, field by field. Go's \<^verbatim>\<open>int\<close> fields carry
  no arithmetic here and are plain integers; \<^verbatim>\<open>ResolveNodeLimit\<close> is a \<^verbatim>\<open>uint32\<close>;
  \<^verbatim>\<open>RequestTimeout\<close> is a \<^verbatim>\<open>time.Duration\<close>, a count of nanoseconds.
\<close>

record svcConfig =
  DatastoreEngine :: string
  DatastoreConnectionURI :: string
  DatastoreMaxCacheSize :: int
  ServiceName :: string
  HTTPPort :: int
  RPCPort :: int
  MaxTuplesPerWrite :: int
  MaxTypesPerAuthorizationModel :: int
  ChangelogHorizonOffset :: int
  ResolveNodeLimit :: "32 word"
  RequestTimeout :: int
  AuthMethod :: string
  PresharedKeys :: "string list"
  IssuerURL :: string
  Audience :: string

text \<open>
  The objects the composition root builds are kept symbolic: each constructor of the
  datatypes below stands for the value the Go constructor of the same name returns.
  \<open>BoundedConcurrencyTupleReader\<close> is what \<^verbatim>\<open>NewBoundedConcurrencyTupleReader\<close> of
  \<^verbatim>\<open>pkg/storage/storagewrappers\<close> returns for a wrapped reader and a capacity.
\<close>

datatype Tracer = NoopTracer
datatype Meter = NoopMeter
datatype Encoder = Base64Encoder
datatype Logger = ZapLogger

datatype PostgresOption = WithLogger Logger | WithTracer Tracer

datatype Datastore =
    MemoryDatastore Tracer int int
  | PostgresDatastore string "PostgresOption list"
  | BoundedConcurrencyTupleReader Datastore "32 word"
  | CachedOpenFGADatastore Datastore int

datatype Authenticator =
    PresharedKeyAuthenticator "string list"
  | RemoteOidcAuthenticator string string

datatype UnaryServerInterceptor = AuthenticationInterceptor Authenticator

record Dependencies =
  dep_Datastore :: Datastore
  dep_Tracer :: Tracer
  dep_Logger :: Logger
  dep_Meter :: Meter
  dep_TokenEncoder :: Encoder
  dep_Authenticator :: "Authenticator option"

record Config =
  cfg_ServiceName :: string
  cfg_RPCPort :: int
  cfg_HTTPPort :: int
  cfg_ResolveNodeLimit :: "32 word"
  cfg_ChangelogHorizonOffset :: int
  cfg_UnaryInterceptors :: "UnaryServerInterceptor list"
  cfg_MuxOptions :: "unit list"
  cfg_RequestTimeout :: int

record Server =
  srv_Dependencies :: Dependencies
  srv_Config :: Config

text \<open>
  Everything the composition root calls outside this file is a collaborator whose code
  is not among the sources at hand. What a collaborator answers is a field of \<open>World\<close>
  (an error is its message, \<open>None\<close> is Go's \<^verbatim>\<open>nil\<close>); that it was called is an \<open>Action\<close>
  of the trace the functions return.
\<close>

record World =
  envconfig_Process :: "string + svcConfig"
  NewZapLogger :: "string option"
  NewPostgresDatastore :: "string \<Rightarrow> PostgresOption list \<Rightarrow> string option"
  NewPresharedKeyAuthenticator :: "string list \<Rightarrow> string option"
  NewRemoteOidcAuthenticator :: "string \<Rightarrow> string \<Rightarrow> string option"
  server_New :: "Dependencies \<Rightarrow> Config \<Rightarrow> string option"
  Server_Run_result :: "string option"
  Server_Close_result :: "string option"
  Datastore_Close_result :: "string option"

text \<open>
  Modelled from the spec: the migration registry's apply-up and the server's \<^verbatim>\<open>Run\<close>,
  neither of which is among the sources. \<open>Migrations_Apply\<close> stands for applying the
  pending migrations of the registry (the one \<^verbatim>\<open>Migrations.Register\<close> of the migrations
  package fills) to a datastore; \<open>Server_Run\<close> stands for \<^verbatim>\<open>Run(ctx)\<close>, which serves
  requests and is where the network listeners open. The other actions are the calls
  written in \<^verbatim>\<open>main\<close> and \<^verbatim>\<open>buildServerAndDatastore\<close>.
\<close>

datatype Action =
    Logger_Info string
  | Logger_Error string string
  | Logger_Fatal string string
  | Log_Fatalf string
  | Call_memory_New Tracer int int
  | Call_NewPostgresDatastore string "PostgresOption list"
  | Call_NewPresharedKeyAuthenticator "string list"
  | Call_NewRemoteOidcAuthenticator string string
  | Call_server_New Dependencies Config
  | Migrations_Apply Datastore
  | Server_Run Server
  | Server_Close Server
  | Datastore_Close Datastore

text \<open>
  The \<^verbatim>\<open>switch config.DatastoreEngine\<close> of \<^verbatim>\<open>buildServerAndDatastore\<close>: the trace of
  calls made, and the engine or the error returned from the function.
\<close>

definition switch_DatastoreEngine ::
  "World \<Rightarrow> Logger \<Rightarrow> svcConfig \<Rightarrow> Action list \<times> (string + Datastore)" where
  "switch_DatastoreEngine w logger config =
     (if DatastoreEngine config = ''memory'' then
        ([Logger_Info ''using 'memory' storage engine'',
          Call_memory_New NoopTracer (MaxTuplesPerWrite config)
            (MaxTypesPerAuthorizationModel config)],
         Inr (MemoryDatastore NoopTracer (MaxTuplesPerWrite config)
                (MaxTypesPerAuthorizationModel config)))
      else if DatastoreEngine config = ''postgres'' then
        (let opts = [WithLogger logger, WithTracer NoopTracer];
             tr = [Logger_Info ''using 'postgres' storage engine'',
                   Call_NewPostgresDatastore (DatastoreConnectionURI config) opts]
         in case NewPostgresDatastore w (DatastoreConnectionURI config) opts of
              Some err \<Rightarrow> (tr, Inl (''failed to initialize postgres datastore: '' @ err))
            | None \<Rightarrow> (tr, Inr (PostgresDatastore (DatastoreConnectionURI config) opts)))
      else
        ([], Inl (''storage engine '' @ [CHR 0x27] @ DatastoreEngine config @ [CHR 0x27]
                    @ '' is unsupported'')))"

text \<open>
  The \<^verbatim>\<open>switch config.AuthMethod\<close> with the \<^verbatim>\<open>if err != nil\<close> that follows it: the
  authenticator (\<open>None\<close> is the nil interface value the variable starts with), or the
  error returned from the function.
\<close>

definition switch_AuthMethod ::
  "World \<Rightarrow> svcConfig \<Rightarrow> Action list \<times> (string + Authenticator option)" where
  "switch_AuthMethod w config =
     (if AuthMethod config = ''preshared'' then
        ([Call_NewPresharedKeyAuthenticator (PresharedKeys config)],
         case NewPresharedKeyAuthenticator w (PresharedKeys config) of
           Some err \<Rightarrow> Inl (''failed to initialize authenticator: '' @ err)
         | None \<Rightarrow> Inr (Some (PresharedKeyAuthenticator (PresharedKeys config))))
      else if AuthMethod config = ''oidc'' then
        ([Call_NewRemoteOidcAuthenticator (IssuerURL config) (Audience config)],
         case NewRemoteOidcAuthenticator w (IssuerURL config) (Audience config) of
           Some err \<Rightarrow> Inl (''failed to initialize authenticator: '' @ err)
         | None \<Rightarrow> Inr (Some (RemoteOidcAuthenticator (IssuerURL config) (Audience config))))
      else ([], Inr None))"

definition buildServerAndDatastore ::
  "World \<Rightarrow> Logger \<Rightarrow> Action list \<times> (string + Datastore \<times> Server)" where
  "buildServerAndDatastore w logger =
     (case envconfig_Process w of
        Inl err \<Rightarrow> ([], Inl (''failed to process server config: '' @ err))
      | Inr config \<Rightarrow>
          (case switch_DatastoreEngine w logger config of
             (tr1, Inl err) \<Rightarrow> (tr1, Inl err)
           | (tr1, Inr datastore) \<Rightarrow>
               (case switch_AuthMethod w config of
                  (tr2, Inl err) \<Rightarrow> (tr1 @ tr2, Inl err)
                | (tr2, Inr authenticator) \<Rightarrow>
                    (let interceptors =
                           (case authenticator of
                              None \<Rightarrow> []
                            | Some a \<Rightarrow> [AuthenticationInterceptor a]);
                         deps = \<lparr>dep_Datastore =
                                   CachedOpenFGADatastore datastore (DatastoreMaxCacheSize config),
                                 dep_Tracer = NoopTracer,
                                 dep_Logger = logger,
                                 dep_Meter = NoopMeter,
                                 dep_TokenEncoder = Base64Encoder,
                                 dep_Authenticator = authenticator\<rparr>;
                         cfg = \<lparr>cfg_ServiceName = ServiceName config,
                                cfg_RPCPort = RPCPort config,
                                cfg_HTTPPort = HTTPPort config,
                                cfg_ResolveNodeLimit = ResolveNodeLimit config,
                                cfg_ChangelogHorizonOffset = ChangelogHorizonOffset config,
                                cfg_UnaryInterceptors = interceptors,
                                cfg_MuxOptions = [],
                                cfg_RequestTimeout = RequestTimeout config\<rparr>;
                         tr = tr1 @ tr2 @ [Call_server_New deps cfg]
                     in case server_New w deps cfg of
                          Some err \<Rightarrow>
                            (tr, Inl (''failed to initialize openfga server: '' @ err))
                        | None \<Rightarrow>
                            (tr, Inr (datastore,
                                      \<lparr>srv_Dependencies = deps, srv_Config = cfg\<rparr>))))))"

text \<open>
  \<^verbatim>\<open>main\<close>, as the trace of what the process does. \<^verbatim>\<open>log.Fatalf\<close> and
  \<^verbatim>\<open>logger.Fatal\<close> end the process: nothing follows them in the trace. The two log
  lines with non-ASCII characters are kept without those characters.
\<close>

definition main :: "World \<Rightarrow> Action list" where
  "main w =
     (case NewZapLogger w of
        Some err \<Rightarrow> [Log_Fatalf (''failed to initialize logger: '' @ err)]
      | None \<Rightarrow>
          (case buildServerAndDatastore w ZapLogger of
             (tr, Inl err) \<Rightarrow> tr @ [Logger_Fatal ''failed to initialize openfga server'' err]
           | (tr, Inr (datastore, openFgaServer)) \<Rightarrow>
               tr @ [Logger_Info ''starting openfga service...'', Server_Run openFgaServer]
                  @ (case Server_Run_result w of
                       Some err \<Rightarrow> [Logger_Error ''failed to run openfga server'' err]
                     | None \<Rightarrow> [])
                  @ [Server_Close openFgaServer]
                  @ (case Server_Close_result w of
                       Some err \<Rightarrow>
                         [Logger_Error ''failed to gracefully shutdown openfga server'' err]
                     | None \<Rightarrow> [])
                  @ [Datastore_Close datastore]
                  @ (case Datastore_Close_result w of
                       Some err \<Rightarrow>
                         [Logger_Error ''failed to gracefully shutdown openfga datastore'' err]
                     | None \<Rightarrow> [])
                  @ [Logger_Info ''Server exiting. Goodbye'']))"




fun is_Migrations_Apply :: "Action \<Rightarrow> bool" where
  "is_Migrations_Apply (Migrations_Apply _) = True"
| "is_Migrations_Apply _ = False"

fun is_Server_Run :: "Action \<Rightarrow> bool" where
  "is_Server_Run (Server_Run _) = True"
| "is_Server_Run _ = False"

fun is_Call_server_New :: "Action \<Rightarrow> bool" where
  "is_Call_server_New (Call_server_New _ _) = True"
| "is_Call_server_New _ = False"

definition migrates_before_serving :: "Action list \<Rightarrow> bool" where
  "migrates_before_serving tr =
     list_ex is_Migrations_Apply (takeWhile (\<lambda>a. \<not> is_Server_Run a) tr)"

definition defaults :: svcConfig where
  "defaults =
     \<lparr>DatastoreEngine = ''memory'', DatastoreConnectionURI = '''',
      DatastoreMaxCacheSize = 100000, ServiceName = ''openfga'', HTTPPort = 8080,
      RPCPort = 8081, MaxTuplesPerWrite = 100, MaxTypesPerAuthorizationModel = 100,
      ChangelogHorizonOffset = 0, ResolveNodeLimit = 25, RequestTimeout = 0,
      AuthMethod = ''none'', PresharedKeys = [], IssuerURL = '''', Audience = ''''\<rparr>"

text \<open>A world in which the configuration is read as given and every collaborator succeeds.\<close>

definition world_ok :: "svcConfig \<Rightarrow> World" where
  "world_ok config =
     \<lparr>envconfig_Process = Inr config, NewZapLogger = None,
      NewPostgresDatastore = (\<lambda>uri opts. None),
      NewPresharedKeyAuthenticator = (\<lambda>keys. None),
      NewRemoteOidcAuthenticator = (\<lambda>issuer audience. None),
      server_New = (\<lambda>deps cfg. None),
      Server_Run_result = None, Server_Close_result = None,
      Datastore_Close_result = None\<rparr>"


fun is_authenticator_call :: "Action \<Rightarrow> bool" where
  "is_authenticator_call (Call_NewPresharedKeyAuthenticator _) = True"
| "is_authenticator_call (Call_NewRemoteOidcAuthenticator _ _) = True"
| "is_authenticator_call _ = False"

definition postgres_config :: svcConfig where
  "postgres_config =
     defaults\<lparr>DatastoreEngine := ''postgres'',
              DatastoreConnectionURI := ''postgres://localhost:5432/openfga''\<rparr>"

section \<open>Properties of the concurrency-bounded reader\<close>

subsection \<open>Counting control points\<close>

lemma count_list_update:
  "i < length xs \<Longrightarrow>
   length (filter P (xs[i := y])) + (if P (xs ! i) then 1 else 0)
     = length (filter P xs) + (if P y then 1 else 0)"
proof (induction xs arbitrary: i)
  case Nil
  then show ?case by simp
next
  case (Cons x xs)
  show ?case
  proof (cases i)
    case 0
    then show ?thesis by simp
  next
    case (Suc j)
    with Cons.prems have "j < length xs" by simp
    from Cons.IH [OF this] Suc show ?thesis by simp
  qed
qed

lemma count_mono:
  "(\<And>x. P x \<Longrightarrow> Q x) \<Longrightarrow> length (filter P xs) \<le> length (filter Q xs)"
  by (induction xs) auto

lemma executing_le_held: "executing s \<le> held_units s"
  unfolding executing_def held_units_def
proof (rule count_mono)
  fix x :: "('a, 'b, 'c, 'd, 'e) pc"
  assume "in_wrapped x"
  then show "holds_unit x" by (cases x) auto
qed

lemma run_reachable: "run evs s = Some s' \<Longrightarrow> reachable s0 s \<Longrightarrow> reachable s0 s'"
proof (induction evs arbitrary: s)
  case Nil
  then show ?case by simp
next
  case (Cons ev evs)
  from Cons.prems(1) obtain s1 where f: "fire ev s = Some s1" and r: "run evs s1 = Some s'"
    by (auto split: option.splits)
  from Cons.prems(2) f have "reachable s0 s1" by (rule reachable.after)
  with r show ?case by (rule Cons.IH)
qed

subsection \<open>The units held are the elements buffered in the channel\<close>

lemma step_limiter_ok:
  assumes ok: "limiter_ok s" and c: "c < length (calls s)" and st: "step c s = Some s'"
  shows "limiter_ok s'
       \<and> chan_cap (limiter (reader s')) = chan_cap (limiter (reader s))
       \<and> wrapped_reader (reader s') = wrapped_reader (reader s)"
proof (cases "calls s ! c")
  case (Sending call t)
  from count_list_update [OF c, of holds_unit "Sent call t"] Sending
  have n: "length (filter holds_unit ((calls s)[c := Sent call t]))
             = Suc (length (filter holds_unit (calls s)))" by simp
  from ok st Sending n show ?thesis
    by (auto simp: step_def chan_send_def limiter_ok_def held_units_def split: if_splits)
next
  case (Sent call t)
  from count_list_update [OF c, of holds_unit "Delegating call"] Sent
  have n: "length (filter holds_unit ((calls s)[c := Delegating call]))
             = length (filter holds_unit (calls s))" by simp
  from ok st Sent n show ?thesis
    by (auto simp: step_def Let_def limiter_ok_def held_units_def)
next
  case (Delegating call)
  obtain r w' where d: "delegate (wrapped_reader (reader s)) call
      (ctx_err s (call_ctx call)) (backend s) = (r, w')"
    by (cases "delegate (wrapped_reader (reader s)) call (ctx_err s (call_ctx call))
         (backend s)")
  from count_list_update [OF c, of holds_unit "Deferred call r"] Delegating
  have n: "length (filter holds_unit ((calls s)[c := Deferred call r]))
             = length (filter holds_unit (calls s))" by simp
  from ok st Delegating d n show ?thesis
    by (auto simp: step_def limiter_ok_def held_units_def)
next
  case (Deferred call r)
  from count_list_update [OF c, of holds_unit "Returned call r"] Deferred
  have n: "Suc (length (filter holds_unit ((calls s)[c := Returned call r])))
             = length (filter holds_unit (calls s))" by simp
  from ok st Deferred n show ?thesis
    by (auto simp: step_def chan_recv_def limiter_ok_def held_units_def split: if_splits)
next
  case (Returned call r)
  with st show ?thesis by (simp add: step_def)
qed

lemma handoff_limiter_ok:
  assumes ok: "limiter_ok s" and f: "fire (Handoff sn rc) s = Some s'"
  shows "limiter_ok s'
       \<and> chan_cap (limiter (reader s')) = chan_cap (limiter (reader s))
       \<and> wrapped_reader (reader s') = wrapped_reader (reader s)"
proof -
  from f obtain call t call' r where
    sn: "sn < length (calls s)" and rc: "rc < length (calls s)"
    and psn: "calls s ! sn = Sending call t" and prc: "calls s ! rc = Deferred call' r"
    and s': "s' = s\<lparr>calls := (calls s)[sn := Sent call t, rc := Returned call' r]\<rparr>"
    by (auto split: if_splits pc.splits)
  from psn prc have ne: "sn \<noteq> rc" by auto
  from count_list_update [OF sn, of holds_unit "Sent call t"] psn
  have n1: "length (filter holds_unit ((calls s)[sn := Sent call t]))
              = Suc (length (filter holds_unit (calls s)))" by simp
  have rc': "rc < length ((calls s)[sn := Sent call t])" using rc by simp
  from count_list_update [OF rc', of holds_unit "Returned call' r"] prc ne
  have n2: "Suc (length (filter holds_unit
                    ((calls s)[sn := Sent call t, rc := Returned call' r])))
              = length (filter holds_unit ((calls s)[sn := Sent call t]))" by simp
  from ok n1 n2 show ?thesis
    unfolding s' by (simp add: limiter_ok_def held_units_def)
qed

lemma fire_limiter_ok:
  assumes ok: "limiter_ok s" and f: "fire ev s = Some s'"
  shows "limiter_ok s'
       \<and> chan_cap (limiter (reader s')) = chan_cap (limiter (reader s))
       \<and> wrapped_reader (reader s') = wrapped_reader (reader s)"
proof (cases ev)
  case (Invoke call)
  with ok f show ?thesis by (auto simp: limiter_ok_def held_units_def)
next
  case (Step c)
  with f have c: "c < length (calls s)" and st: "step c s = Some s'"
    by (auto split: if_splits)
  show ?thesis by (rule step_limiter_ok [OF ok c st])
next
  case (Handoff sn rc)
  with ok f show ?thesis using handoff_limiter_ok by blast
next
  case (Tick d)
  with ok f show ?thesis by (auto simp: limiter_ok_def held_units_def)
next
  case (Done_fires ctx cerr)
  with ok f show ?thesis by (auto simp: limiter_ok_def held_units_def)
qed

lemma reachable_limiter_ok:
  assumes "reachable s0 s" and "limiter_ok s0"
  shows "limiter_ok s
       \<and> chan_cap (limiter (reader s)) = chan_cap (limiter (reader s0))
       \<and> wrapped_reader (reader s) = wrapped_reader (reader s0)"
  using assms
proof (induction rule: reachable.induct)
  case start
  then show ?case by simp
next
  case (after s ev s')
  from after.IH [OF after.prems] have ok: "limiter_ok s"
    and eq: "chan_cap (limiter (reader s)) = chan_cap (limiter (reader s0))"
            "wrapped_reader (reader s) = wrapped_reader (reader s0)"
    by simp_all
  from fire_limiter_ok [OF ok after.hyps(2)] eq show ?case by simp
qed

lemma boot_limiter_ok: "limiter_ok (boot (NewBoundedConcurrencyTupleReader wrapped C) w t)"
  by (simp add: limiter_ok_def held_units_def boot_def NewBoundedConcurrencyTupleReader_def
      make_chan_def)

lemmas run_simps = fire.simps step_def boot_def NewBoundedConcurrencyTupleReader_def
  make_chan_def chan_send_def chan_recv_def echo_system_def echo_reader_def Let_def
  Observe_def Milliseconds_def Sub_def timeWaitingSpanAttribute_def
  boundedReadDelayMsHistogram_def

subsection \<open>A call made while the channel has room, run on its own\<close>

lemma solo_call:
  assumes room: "chan_len (limiter (reader s)) < chan_cap (limiter (reader s))"
      and n: "n = length (calls s)"
      and d: "delegate (wrapped_reader (reader s)) call (ctx_err s (call_ctx call)) (backend s)
                = (r, w')"
  shows "\<exists>s'. run [Invoke call, Step n, Step n, Step n, Step n] s = Some s'
            \<and> calls s' = calls s @ [Returned call r]
            \<and> backend s' = w'
            \<and> limiter (reader s') = limiter (reader s)
            \<and> wrapped_reader (reader s') = wrapped_reader (reader s)
            \<and> ctx_err s' = ctx_err s \<and> clock s' = clock s"
  using room d unfolding n
  by (simp add: fire.simps step_def chan_send_def chan_recv_def Let_def)

subsection \<open>The decorator against the wrapped reader called directly\<close>

lemma delegate_returns: "delegate rd call cerr w = wrapped_reader_returns rd call cerr w"
  by (cases call) (simp_all split: prod.splits)

lemma map_abs_pc_update_same:
  assumes "c < length xs" and "abs_pc y = abs_pc (xs ! c)"
  shows "map abs_pc (xs[c := y]) = map abs_pc xs"
proof -
  have "map abs_pc (xs[c := y]) = (map abs_pc xs)[c := abs_pc y]" by (rule map_update)
  also have "\<dots> = (map abs_pc xs)[c := map abs_pc xs ! c]" using assms by simp
  also have "\<dots> = map abs_pc xs" by (rule list_update_id)
  finally show ?thesis .
qed

lemma step_simulated:
  assumes c: "c < length (calls s)" and st: "step c s = Some s'"
  shows "abstraction s' = abstraction s
       \<or> direct_fire (wrapped_reader (reader s)) (Answer c) (abstraction s)
           = Some (abstraction s')"
proof (cases "calls s ! c")
  case (Sending call t)
  with c have "map abs_pc ((calls s)[c := Sent call t]) = map abs_pc (calls s)"
    by (intro map_abs_pc_update_same) simp_all
  with st Sending show ?thesis
    by (auto simp: step_def abstraction_def split: option.splits)
next
  case (Sent call t)
  with c have "map abs_pc ((calls s)[c := Delegating call]) = map abs_pc (calls s)"
    by (intro map_abs_pc_update_same) simp_all
  with st Sent show ?thesis
    by (auto simp: step_def abstraction_def Let_def)
next
  case (Delegating call)
  obtain r w' where d: "delegate (wrapped_reader (reader s)) call
      (ctx_err s (call_ctx call)) (backend s) = (r, w')"
    by (cases "delegate (wrapped_reader (reader s)) call (ctx_err s (call_ctx call))
         (backend s)")
  from d have "wrapped_reader_returns (wrapped_reader (reader s)) call
      (ctx_err s (call_ctx call)) (backend s) = (r, w')"
    by (simp add: delegate_returns)
  with st Delegating d c have "direct_fire (wrapped_reader (reader s)) (Answer c)
      (abstraction s) = Some (abstraction s')"
    by (auto simp: step_def abstraction_def map_update)
  then show ?thesis ..
next
  case (Deferred call r)
  with c have "map abs_pc ((calls s)[c := Returned call r]) = map abs_pc (calls s)"
    by (intro map_abs_pc_update_same) simp_all
  with st Deferred show ?thesis
    by (auto simp: step_def abstraction_def split: option.splits)
next
  case (Returned call r)
  with st show ?thesis by (simp add: step_def)
qed

lemma fire_simulated:
  assumes f: "fire ev s = Some s'"
  shows "wrapped_reader (reader s') = wrapped_reader (reader s)
       \<and> (abstraction s' = abstraction s
          \<or> (\<exists>dev. direct_fire (wrapped_reader (reader s)) dev (abstraction s)
                     = Some (abstraction s')))"
proof (cases ev)
  case (Invoke call)
  with f have "direct_fire (wrapped_reader (reader s)) (Ask call) (abstraction s)
      = Some (abstraction s')"
    by (auto simp: abstraction_def)
  moreover from f Invoke have "wrapped_reader (reader s') = wrapped_reader (reader s)"
    by auto
  ultimately show ?thesis by blast
next
  case (Step c)
  with f have c: "c < length (calls s)" and st: "step c s = Some s'"
    by (auto split: if_splits)
  from st have "wrapped_reader (reader s') = wrapped_reader (reader s)"
    by (auto simp: step_def Let_def split: pc.splits option.splits prod.splits)
  with step_simulated [OF c st] show ?thesis by blast
next
  case (Handoff sn rc)
  with f obtain call t call' r where
    sn: "sn < length (calls s)" and rc: "rc < length (calls s)"
    and psn: "calls s ! sn = Sending call t" and prc: "calls s ! rc = Deferred call' r"
    and s': "s' = s\<lparr>calls := (calls s)[sn := Sent call t, rc := Returned call' r]\<rparr>"
    by (auto split: if_splits pc.splits)
  from psn prc have ne: "sn \<noteq> rc" by auto
  have "map abs_pc ((calls s)[sn := Sent call t]) = map abs_pc (calls s)"
    using sn psn by (intro map_abs_pc_update_same) simp_all
  moreover have "map abs_pc ((calls s)[sn := Sent call t, rc := Returned call' r])
      = map abs_pc ((calls s)[sn := Sent call t])"
    using rc prc ne by (intro map_abs_pc_update_same) simp_all
  ultimately show ?thesis unfolding s' by (simp add: abstraction_def)
next
  case (Tick d)
  with f show ?thesis by (auto simp: abstraction_def)
next
  case (Done_fires ctx cerr)
  with f have "direct_fire (wrapped_reader (reader s)) (Direct_Done_fires ctx cerr)
      (abstraction s) = Some (abstraction s')"
    by (auto simp: abstraction_def)
  moreover from f Done_fires have "wrapped_reader (reader s') = wrapped_reader (reader s)"
    by auto
  ultimately show ?thesis by blast
qed

lemma reachable_simulated:
  assumes "reachable s0 s"
  shows "wrapped_reader (reader s) = wrapped_reader (reader s0)
       \<and> direct_reachable (wrapped_reader (reader s0)) (abstraction s0) (abstraction s)"
  using assms
proof (induction rule: reachable.induct)
  case start
  show ?case by (simp add: direct_reachable.direct_start)
next
  case (after s ev s')
  from after.IH have w: "wrapped_reader (reader s) = wrapped_reader (reader s0)"
    and dr: "direct_reachable (wrapped_reader (reader s0)) (abstraction s0) (abstraction s)"
    by simp_all
  from fire_simulated [OF after.hyps(2)] w
  have w': "wrapped_reader (reader s') = wrapped_reader (reader s0)"
    and sim: "abstraction s' = abstraction s
       \<or> (\<exists>dev. direct_fire (wrapped_reader (reader s0)) dev (abstraction s)
                  = Some (abstraction s'))"
    by simp_all
  from sim have "direct_reachable (wrapped_reader (reader s0)) (abstraction s0)
      (abstraction s')"
  proof
    assume "abstraction s' = abstraction s"
    with dr show ?thesis by simp
  next
    assume "\<exists>dev. direct_fire (wrapped_reader (reader s0)) dev (abstraction s)
                  = Some (abstraction s')"
    then obtain dev where "direct_fire (wrapped_reader (reader s0)) dev (abstraction s)
        = Some (abstraction s')" ..
    with dr show ?thesis by (rule direct_reachable.direct_after)
  qed
  with w' show ?case by simp
qed

subsection \<open>A context's signal while its call is blocked at the send\<close>

lemma count_pos:
  assumes "c < length xs" and "P (xs ! c)"
  shows "0 < length (filter P xs)"
proof -
  from assms(1) have "xs ! c \<in> set xs" by (rule nth_mem)
  with assms(2) have "filter P xs \<noteq> []" by (auto simp: filter_empty_conv)
  then show ?thesis by simp
qed






subsection \<open>Telemetry of the wait\<close>

lemma count_update_same:
  assumes "c < length xs" and "P y = P (xs ! c)"
  shows "length (filter P (xs[c := y])) = length (filter P xs)"
  using count_list_update [OF assms(1), of P y] assms(2) by simp

lemma count_update_gain:
  assumes "c < length xs" and "P y" and "\<not> P (xs ! c)"
  shows "length (filter P (xs[c := y])) = Suc (length (filter P xs))"
  using count_list_update [OF assms(1), of P y] assms(2,3) by simp

lemma Sent_step:
  assumes "c < length (calls s)" and "calls s ! c = Sent call start"
  shows "fire (Step c) s =
           Some (s\<lparr>histogram := Observe (Milliseconds (Sub (clock s) start)) (histogram s),
                   span_attributes :=
                     (span_attributes s)
                       (call_ctx call := span_attributes s (call_ctx call)
                          @ [(timeWaitingSpanAttribute, Milliseconds (Sub (clock s) start))]),
                   calls := (calls s)[c := Delegating call]\<rparr>)"
  using assms by (simp add: step_def Let_def)

lemma step_telemetry_ok:
  assumes ok: "telemetry_ok s" and c: "c < length (calls s)" and st: "step c s = Some s'"
  shows "telemetry_ok s'"
proof (cases "calls s ! c")
  case (Sending call t)
  let ?xs = "(calls s)[c := Sent call t]"
  have a: "length (filter waited ?xs) = length (filter waited (calls s))"
    using c Sending by (intro count_update_same) simp_all
  have b: "length (filter (\<lambda>p. waited p \<and> call_ctx (pc_call p) = ctx) ?xs)
         = length (filter (\<lambda>p. waited p \<and> call_ctx (pc_call p) = ctx) (calls s))" for ctx
    using c Sending by (intro count_update_same) simp_all
  from ok st Sending a b show ?thesis
    by (auto simp: step_def telemetry_ok_def waits_completed_def waits_completed_for_def
        split: option.splits)
next
  case (Sent call t)
  let ?xs = "(calls s)[c := Delegating call]"
  let ?v = "Milliseconds (Sub (clock s) t)"
  have s': "s' = s\<lparr>histogram := Observe ?v (histogram s),
                   span_attributes :=
                     (span_attributes s)
                       (call_ctx call := span_attributes s (call_ctx call)
                          @ [(timeWaitingSpanAttribute, ?v)]),
                   calls := ?xs\<rparr>"
    using Sent_step [OF c Sent] st c by simp
  have a: "length (filter waited ?xs) = Suc (length (filter waited (calls s)))"
    using c Sent by (intro count_update_gain) simp_all
  have b1: "length (filter (\<lambda>p. waited p \<and> call_ctx (pc_call p) = call_ctx call) ?xs)
         = Suc (length (filter (\<lambda>p. waited p \<and> call_ctx (pc_call p) = call_ctx call)
                  (calls s)))"
    using c Sent by (intro count_update_gain) simp_all
  have b2: "length (filter (\<lambda>p. waited p \<and> call_ctx (pc_call p) = ctx) ?xs)
         = length (filter (\<lambda>p. waited p \<and> call_ctx (pc_call p) = ctx) (calls s))"
    if "ctx \<noteq> call_ctx call" for ctx
    using c Sent that by (intro count_update_same) auto
  from ok a b1 b2 show ?thesis
    unfolding s'
    by (auto simp: telemetry_ok_def waits_completed_def waits_completed_for_def Observe_def)
next
  case (Delegating call)
  obtain r w' where d: "delegate (wrapped_reader (reader s)) call
      (ctx_err s (call_ctx call)) (backend s) = (r, w')"
    by (cases "delegate (wrapped_reader (reader s)) call (ctx_err s (call_ctx call))
         (backend s)")
  let ?xs = "(calls s)[c := Deferred call r]"
  have a: "length (filter waited ?xs) = length (filter waited (calls s))"
    using c Delegating by (intro count_update_same) simp_all
  have b: "length (filter (\<lambda>p. waited p \<and> call_ctx (pc_call p) = ctx) ?xs)
         = length (filter (\<lambda>p. waited p \<and> call_ctx (pc_call p) = ctx) (calls s))" for ctx
    using c Delegating by (intro count_update_same) simp_all
  from ok st Delegating d a b show ?thesis
    by (auto simp: step_def telemetry_ok_def waits_completed_def waits_completed_for_def)
next
  case (Deferred call r)
  let ?xs = "(calls s)[c := Returned call r]"
  have a: "length (filter waited ?xs) = length (filter waited (calls s))"
    using c Deferred by (intro count_update_same) simp_all
  have b: "length (filter (\<lambda>p. waited p \<and> call_ctx (pc_call p) = ctx) ?xs)
         = length (filter (\<lambda>p. waited p \<and> call_ctx (pc_call p) = ctx) (calls s))" for ctx
    using c Deferred by (intro count_update_same) simp_all
  from ok st Deferred a b show ?thesis
    by (auto simp: step_def telemetry_ok_def waits_completed_def waits_completed_for_def
        split: option.splits)
next
  case (Returned call r)
  with st show ?thesis by (simp add: step_def)
qed

lemma fire_telemetry_ok:
  assumes ok: "telemetry_ok s" and f: "fire ev s = Some s'"
  shows "telemetry_ok s'"
proof (cases ev)
  case (Invoke call)
  with ok f show ?thesis
    by (auto simp: telemetry_ok_def waits_completed_def waits_completed_for_def)
next
  case (Step c)
  with f have c: "c < length (calls s)" and st: "step c s = Some s'"
    by (auto split: if_splits)
  show ?thesis by (rule step_telemetry_ok [OF ok c st])
next
  case (Handoff sn rc)
  with f obtain call t call' r where
    sn: "sn < length (calls s)" and rc: "rc < length (calls s)"
    and psn: "calls s ! sn = Sending call t" and prc: "calls s ! rc = Deferred call' r"
    and s': "s' = s\<lparr>calls := (calls s)[sn := Sent call t, rc := Returned call' r]\<rparr>"
    by (auto split: if_splits pc.splits)
  from psn prc have ne: "sn \<noteq> rc" by auto
  let ?ys = "(calls s)[sn := Sent call t]"
  have same: "length (filter P (?ys[rc := Returned call' r])) = length (filter P (calls s))"
    if "P (Sent call t) = P (Sending call t)"
      and "P (Returned call' r) = P (Deferred call' r)" for P
  proof -
    have "length (filter P (?ys[rc := Returned call' r])) = length (filter P ?ys)"
      using rc prc ne that(2) by (intro count_update_same) simp_all
    also have "\<dots> = length (filter P (calls s))"
      using sn psn that(1) by (intro count_update_same) simp_all
    finally show ?thesis .
  qed
  have a: "length (filter waited (?ys[rc := Returned call' r]))
         = length (filter waited (calls s))"
    by (rule same) simp_all
  have b: "length (filter (\<lambda>p. waited p \<and> call_ctx (pc_call p) = ctx)
                     (?ys[rc := Returned call' r]))
         = length (filter (\<lambda>p. waited p \<and> call_ctx (pc_call p) = ctx) (calls s))" for ctx
    by (rule same) simp_all
  from ok a b show ?thesis
    unfolding s'
    by (simp add: telemetry_ok_def waits_completed_def waits_completed_for_def)
next
  case (Tick d)
  with ok f show ?thesis
    by (auto simp: telemetry_ok_def waits_completed_def waits_completed_for_def)
next
  case (Done_fires ctx cerr)
  with ok f show ?thesis
    by (auto simp: telemetry_ok_def waits_completed_def waits_completed_for_def)
qed

lemma started_by_mono: "started_by t p \<Longrightarrow> t \<le> t' \<Longrightarrow> started_by t' p"
  by (cases p) auto

lemma clock_ok_update:
  assumes "clock_ok s" and "started_by (clock s) y"
  shows "\<forall>p \<in> set ((calls s)[c := y]). started_by (clock s) p"
proof
  fix p assume "p \<in> set ((calls s)[c := y])"
  then have "p \<in> insert y (set (calls s))"
    using set_update_subset_insert by fastforce
  with assms show "started_by (clock s) p" by (auto simp: clock_ok_def)
qed

lemma fire_clock_ok:
  assumes ok: "clock_ok s" and f: "fire ev s = Some s'"
  shows "clock_ok s'"
proof (cases ev)
  case (Invoke call)
  with ok f show ?thesis by (auto simp: clock_ok_def)
next
  case (Step c)
  with f have c: "c < length (calls s)" and st: "step c s = Some s'"
    by (auto split: if_splits)
  from c have mem: "calls s ! c \<in> set (calls s)" by (rule nth_mem)
  show ?thesis
  proof (cases "calls s ! c")
    case (Sending call t)
    with ok mem have "started_by (clock s) (Sent call t)" by (auto simp: clock_ok_def)
    from clock_ok_update [OF ok this, of c] st Sending show ?thesis
      by (auto simp: step_def clock_ok_def split: option.splits)
  next
    case (Sent call t)
    from clock_ok_update [OF ok, of "Delegating call" c] st Sent show ?thesis
      by (auto simp: step_def clock_ok_def Let_def)
  next
    case (Delegating call)
    obtain r w' where d: "delegate (wrapped_reader (reader s)) call
        (ctx_err s (call_ctx call)) (backend s) = (r, w')"
      by (cases "delegate (wrapped_reader (reader s)) call (ctx_err s (call_ctx call))
           (backend s)")
    from clock_ok_update [OF ok, of "Deferred call r" c] st Delegating d show ?thesis
      by (auto simp: step_def clock_ok_def)
  next
    case (Deferred call r)
    from clock_ok_update [OF ok, of "Returned call r" c] st Deferred show ?thesis
      by (auto simp: step_def clock_ok_def split: option.splits)
  next
    case (Returned call r)
    with st show ?thesis by (simp add: step_def)
  qed
next
  case (Handoff sn rc)
  with f obtain call t call' r where
    sn: "sn < length (calls s)"
    and psn: "calls s ! sn = Sending call t"
    and s': "s' = s\<lparr>calls := (calls s)[sn := Sent call t, rc := Returned call' r]\<rparr>"
    by (auto split: if_splits pc.splits)
  from sn have "calls s ! sn \<in> set (calls s)" by (rule nth_mem)
  with ok psn have st: "started_by (clock s) (Sent call t)" by (auto simp: clock_ok_def)
  let ?s1 = "s\<lparr>calls := (calls s)[sn := Sent call t]\<rparr>"
  from clock_ok_update [OF ok st, of sn] have ok1: "clock_ok ?s1" by (simp add: clock_ok_def)
  from clock_ok_update [OF ok1, of "Returned call' r" rc] show ?thesis
    unfolding s' by (simp add: clock_ok_def)
next
  case (Tick d)
  have "started_by (clock s + int d) p" if "p \<in> set (calls s)" for p
    using ok that started_by_mono [of "clock s" p "clock s + int d"]
    by (auto simp: clock_ok_def)
  with f Tick show ?thesis by (auto simp: clock_ok_def)
next
  case (Done_fires ctx cerr)
  with ok f show ?thesis by (auto simp: clock_ok_def)
qed

lemma reachable_telemetry_ok:
  assumes "reachable (boot b w t) s"
  shows "telemetry_ok s \<and> clock_ok s"
  using assms
proof (induction rule: reachable.induct)
  case start
  show ?case
    by (simp add: telemetry_ok_def clock_ok_def boot_def waits_completed_def
        waits_completed_for_def boundedReadDelayMsHistogram_def)
next
  case (after s ev s')
  then show ?case using fire_telemetry_ok fire_clock_ok by blast
qed

lemma Milliseconds_Sub:
  "start \<le> now \<Longrightarrow> Milliseconds (Sub now start) = min (2 ^ 63 - 1) (now - start) div 1000000"
  by (simp add: Milliseconds_def Sub_def)

text \<open>
  Claim C8. In every state the system reaches: the histogram has the bucket boundaries
  1, 3, 5, 10, 25, 50, 100, 1000, 5000 and exactly one observation per completed wait;
  the span of each context has exactly one attribute per completed wait of a call with
  that context, all under the key \<^verbatim>\<open>time_waiting\<close>. A call whose send is done completes
  its wait with one step, which observes the time from entering the method to now, in
  whole milliseconds, on the histogram and sets that same value under \<^verbatim>\<open>time_waiting\<close>
  on the span of the call's context, and nothing else.
\<close>

theorem one_observation_per_bounded_wait:
  assumes "reachable (boot b w t) s"
  shows "hist_Buckets (histogram s) = [1, 3, 5, 10, 25, 50, 100, 1000, 5000]
       \<and> length (observed (histogram s)) = waits_completed s
       \<and> (\<forall>ctx. length (span_attributes s ctx) = waits_completed_for ctx s)
       \<and> (\<forall>ctx. list_all (\<lambda>kv. fst kv = ''time_waiting'') (span_attributes s ctx))
       \<and> (\<forall>c call start. c < length (calls s) \<and> calls s ! c = Sent call start \<longrightarrow>
            start \<le> clock s
            \<and> fire (Step c) s =
                Some (s\<lparr>histogram := (histogram s)
                          \<lparr>observed := observed (histogram s)
                             @ [min (2 ^ 63 - 1) (clock s - start) div 1000000]\<rparr>,
                        span_attributes :=
                          (span_attributes s)
                            (call_ctx call := span_attributes s (call_ctx call)
                               @ [(''time_waiting'',
                                   min (2 ^ 63 - 1) (clock s - start) div 1000000)]),
                        calls := (calls s)[c := Delegating call]\<rparr>))"
proof -
  from reachable_telemetry_ok [OF assms] have t: "telemetry_ok s" and k: "clock_ok s"
    by simp_all
  have step: "start \<le> clock s
            \<and> fire (Step c) s =
                Some (s\<lparr>histogram := (histogram s)
                          \<lparr>observed := observed (histogram s)
                             @ [min (2 ^ 63 - 1) (clock s - start) div 1000000]\<rparr>,
                        span_attributes :=
                          (span_attributes s)
                            (call_ctx call := span_attributes s (call_ctx call)
                               @ [(''time_waiting'',
                                   min (2 ^ 63 - 1) (clock s - start) div 1000000)]),
                        calls := (calls s)[c := Delegating call]\<rparr>)"
    if c: "c < length (calls s)" and p: "calls s ! c = Sent call start" for c call start
  proof -
    from c have "calls s ! c \<in> set (calls s)" by (rule nth_mem)
    with k p have le: "start \<le> clock s" by (auto simp: clock_ok_def)
    from Sent_step [OF c p] Milliseconds_Sub [OF le] le show ?thesis
      by (simp add: Observe_def timeWaitingSpanAttribute_def)
  qed
  from t have "hist_Buckets (histogram s) = [1, 3, 5, 10, 25, 50, 100, 1000, 5000]
       \<and> length (observed (histogram s)) = waits_completed s
       \<and> (\<forall>ctx. length (span_attributes s ctx) = waits_completed_for ctx s)
       \<and> (\<forall>ctx. list_all (\<lambda>kv. fst kv = ''time_waiting'') (span_attributes s ctx))"
    by (simp add: telemetry_ok_def timeWaitingSpanAttribute_def)
  with step show ?thesis by blast
qed

theorem one_observation_per_bounded_wait_witness:
  "map_option (\<lambda>s. (calls s, observed (histogram s), span_attributes s 4, waits_completed s))
     (run [Invoke (Read 4 ''store'' 7), Tick 2500000, Step 0] (echo_system 1))
     = Some ([Sent (Read 4 ''store'' 7) 0], [], [], 0)
   \<and> map_option (\<lambda>s. (calls s, observed (histogram s), span_attributes s 4, waits_completed s))
       (run [Invoke (Read 4 ''store'' 7), Tick 2500000, Step 0, Step 0] (echo_system 1))
     = Some ([Delegating (Read 4 ''store'' 7)], [2], [(''time_waiting'', 2)], 1)"
proof -
  let ?evs = "[Invoke (Read 4 ''store'' 7), Tick 2500000, Step 0] :: (nat, nat) event list"
  obtain s where r: "run ?evs (echo_system 1) = Some s"
    by (simp add: run_simps)
  have cs: "calls s = [Sent (Read 4 ''store'' 7) 0]"
    and cl: "clock s = 2500000"
    using r by (auto simp: run_simps)
  have "reachable (echo_system 1) s"
    using r reachable.start by (rule run_reachable)
  then have re: "reachable (boot (NewBoundedConcurrencyTupleReader echo_reader 1) 0 0) s"
    by (simp add: echo_system_def)
  note T = one_observation_per_bounded_wait [OF re]
  from T cs have o: "observed (histogram s) = []" and w: "waits_completed s = 0"
    by (simp_all add: waits_completed_def)
  from T cs have a: "span_attributes s 4 = []"
    by (simp add: waits_completed_for_def)
  from T have "\<forall>c call start. c < length (calls s) \<and> calls s ! c = Sent call start \<longrightarrow>
            start \<le> clock s
            \<and> fire (Step c) s =
                Some (s\<lparr>histogram := (histogram s)
                          \<lparr>observed := observed (histogram s)
                             @ [min (2 ^ 63 - 1) (clock s - start) div 1000000]\<rparr>,
                        span_attributes :=
                          (span_attributes s)
                            (call_ctx call := span_attributes s (call_ctx call)
                               @ [(''time_waiting'',
                                   min (2 ^ 63 - 1) (clock s - start) div 1000000)]),
                        calls := (calls s)[c := Delegating call]\<rparr>)"
    by blast
  from this [rule_format, of 0 "Read 4 ''store'' 7" 0] cs cl o a
  have f: "fire (Step 0) s =
      Some (s\<lparr>histogram := (histogram s)\<lparr>observed := [2]\<rparr>,
              span_attributes := (span_attributes s)(4 := [(''time_waiting'', 2)]),
              calls := [Delegating (Read 4 ''store'' 7)]\<rparr>)"
    by (simp del: fire.simps)
  have r2: "run (?evs @ [Step 0]) (echo_system 1) =
      Some (s\<lparr>histogram := (histogram s)\<lparr>observed := [2]\<rparr>,
              span_attributes := (span_attributes s)(4 := [(''time_waiting'', 2)]),
              calls := [Delegating (Read 4 ''store'' 7)]\<rparr>)"
  proof -
    have "run (?evs @ [Step 0]) (echo_system 1)
        = (case run ?evs (echo_system 1) of None \<Rightarrow> None | Some u \<Rightarrow> fire (Step 0) u)"
      by (simp add: run_simps split: option.splits)
    with r f show ?thesis by (simp del: fire.simps)
  qed
  from r r2 cs o a w show ?thesis
    by (simp add: waits_completed_def del: fire.simps)
qed

subsection \<open>Iterators outlive the unit of the call that produced them\<close>

lemma iterator_call_reply:
  assumes "is_iterator_call call"
      and "\<forall>ctx cerr store tupleKey u. snd (fst (rd_Read rd ctx cerr store tupleKey u)) = None"
      and "\<forall>ctx cerr store flt u. snd (fst (rd_ReadUsersetTuples rd ctx cerr store flt u)) = None"
  shows "\<exists>it u'. delegate rd call cerr u = (Iterator_reply it None, u')"
proof (cases call)
  case (ReadUserTuple ctx store tupleKey)
  with assms(1) show ?thesis by simp
next
  case (Read ctx store tupleKey)
  obtain it e u' where d: "rd_Read rd ctx cerr store tupleKey u = ((it, e), u')"
    by (metis prod.collapse)
  with assms(2) have "e = None" by (metis fst_conv snd_conv)
  with d Read show ?thesis by simp
next
  case (ReadUsersetTuples ctx store flt)
  obtain it e u' where d: "rd_ReadUsersetTuples rd ctx cerr store flt u = ((it, e), u')"
    by (metis prod.collapse)
  with assms(3) have "e = None" by (metis fst_conv snd_conv)
  with d ReadUsersetTuples show ?thesis by simp
qed

lemma Deferred_step:
  assumes ok: "limiter_ok s" and c: "c < length (calls s)"
      and p: "calls s ! c = Deferred call r"
  shows "0 < chan_len (limiter (reader s))
       \<and> fire (Step c) s =
           Some (s\<lparr>reader := (reader s)
                     \<lparr>limiter := (limiter (reader s))
                        \<lparr>chan_len := chan_len (limiter (reader s)) - 1\<rparr>\<rparr>,
                   calls := (calls s)[c := Returned call r]\<rparr>)"
proof -
  from count_pos [OF c, of holds_unit] p have "0 < held_units s"
    unfolding held_units_def by simp
  with ok have pos: "0 < chan_len (limiter (reader s))" by (simp add: limiter_ok_def)
  with c p show ?thesis by (simp add: step_def chan_recv_def)
qed

lemma all_calls_returned_with_iterators:
  assumes room: "0 < unat C"
      and rd: "\<forall>ctx cerr store tupleKey u.
                 snd (fst (rd_Read wrapped ctx cerr store tupleKey u)) = None"
      and ru: "\<forall>ctx cerr store flt u.
                 snd (fst (rd_ReadUsersetTuples wrapped ctx cerr store flt u)) = None"
      and it: "list_all is_iterator_call cs"
  shows "\<exists>s. reachable (boot (NewBoundedConcurrencyTupleReader wrapped C) w t) s
            \<and> map pc_call (calls s) = cs
            \<and> list_all holds_iterator (calls s)
            \<and> chan_len (limiter (reader s)) = 0"
  using it
proof (induction cs rule: rev_induct)
  case Nil
  have "reachable (boot (NewBoundedConcurrencyTupleReader wrapped C) w t)
          (boot (NewBoundedConcurrencyTupleReader wrapped C) w t)"
    by (rule reachable.start)
  then show ?case
    by (intro exI [of _ "boot (NewBoundedConcurrencyTupleReader wrapped C) w t"])
      (simp add: boot_def NewBoundedConcurrencyTupleReader_def make_chan_def)
next
  case (snoc call cs)
  let ?s0 = "boot (NewBoundedConcurrencyTupleReader wrapped C) w t"
  from snoc.prems have cs: "list_all is_iterator_call cs" and call: "is_iterator_call call"
    by simp_all
  from snoc.IH [OF cs] obtain s where r: "reachable ?s0 s"
    and m: "map pc_call (calls s) = cs"
    and h: "list_all holds_iterator (calls s)"
    and l: "chan_len (limiter (reader s)) = 0"
    by blast
  from reachable_limiter_ok [OF r boot_limiter_ok]
  have cap: "chan_cap (limiter (reader s)) = unat C"
    and wr: "wrapped_reader (reader s) = wrapped"
    by (simp_all add: boot_def NewBoundedConcurrencyTupleReader_def make_chan_def)
  from iterator_call_reply [OF call rd ru]
  obtain it u' where d: "delegate wrapped call (ctx_err s (call_ctx call)) (backend s)
      = (Iterator_reply it None, u')"
    by blast
  from room l cap have free: "chan_len (limiter (reader s)) < chan_cap (limiter (reader s))"
    by simp
  from solo_call [OF free refl, of call "Iterator_reply it None" u'] d wr
  obtain s' where run: "run [Invoke call, Step (length (calls s)), Step (length (calls s)),
        Step (length (calls s)), Step (length (calls s))] s = Some s'"
    and c': "calls s' = calls s @ [Returned call (Iterator_reply it None)]"
    and l': "limiter (reader s') = limiter (reader s)"
    by auto
  from run r have "reachable ?s0 s'" by (rule run_reachable)
  moreover from c' m have "map pc_call (calls s') = cs @ [call]" by simp
  moreover from c' h have "list_all holds_iterator (calls s')" by simp
  moreover from l' l have "chan_len (limiter (reader s')) = 0" by simp
  ultimately show ?case by blast
qed

lemma count_all: "list_all P xs \<Longrightarrow> length (filter P xs) = length xs"
  by (induction xs) auto

lemma count_none: "list_all (\<lambda>x. \<not> P x) xs \<Longrightarrow> length (filter P xs) = 0"
  by (induction xs) auto

lemma holds_iterator_not_holds_unit:
  "list_all holds_iterator xs \<Longrightarrow> list_all (\<lambda>p. \<not> holds_unit p) xs"
proof (induction xs)
  case Nil
  show ?case by simp
next
  case (Cons p ps)
  from Cons.prems have "holds_iterator p" by simp
  then have "\<not> holds_unit p" by (cases p) auto
  with Cons show ?case by simp
qed

text \<open>
  Claim C10. The unit goes back with the return: a call at its deferred receive has
  its unit in the channel, and the step that takes the call to \<open>Returned\<close> is the step
  that removes it, whoever holds the iterator afterwards. So the bound is on the calls
  in flight, not on the iterators held: when the wrapped reader's \<^verbatim>\<open>Read\<close> and
  \<^verbatim>\<open>ReadUsersetTuples\<close> succeed and the capacity is at least 1, any list of such calls,
  however long, can all have returned their iterators, with every iterator held by its
  caller, no unit held and the channel empty.
\<close>

theorem unit_released_at_return_not_at_iterator_close:
  assumes "0 < unat C"
      and "\<forall>ctx cerr store tupleKey u.
             snd (fst (rd_Read wrapped ctx cerr store tupleKey u)) = None"
      and "\<forall>ctx cerr store flt u.
             snd (fst (rd_ReadUsersetTuples wrapped ctx cerr store flt u)) = None"
      and "list_all is_iterator_call cs"
  shows "(\<forall>s c call r.
            reachable (boot (NewBoundedConcurrencyTupleReader wrapped C) w t) s
            \<and> c < length (calls s) \<and> calls s ! c = Deferred call r \<longrightarrow>
            0 < chan_len (limiter (reader s))
            \<and> fire (Step c) s =
                Some (s\<lparr>reader := (reader s)
                          \<lparr>limiter := (limiter (reader s))
                             \<lparr>chan_len := chan_len (limiter (reader s)) - 1\<rparr>\<rparr>,
                        calls := (calls s)[c := Returned call r]\<rparr>))
       \<and> (\<exists>s. reachable (boot (NewBoundedConcurrencyTupleReader wrapped C) w t) s
              \<and> map pc_call (calls s) = cs
              \<and> open_iterators s = length cs
              \<and> held_units s = 0
              \<and> executing s = 0
              \<and> chan_len (limiter (reader s)) = 0)"
proof -
  have one: "0 < chan_len (limiter (reader s))
            \<and> fire (Step c) s =
                Some (s\<lparr>reader := (reader s)
                          \<lparr>limiter := (limiter (reader s))
                             \<lparr>chan_len := chan_len (limiter (reader s)) - 1\<rparr>\<rparr>,
                        calls := (calls s)[c := Returned call r]\<rparr>)"
    if a: "reachable (boot (NewBoundedConcurrencyTupleReader wrapped C) w t) s
            \<and> c < length (calls s) \<and> calls s ! c = Deferred call r" for s c call r
  proof -
  from a have re: "reachable (boot (NewBoundedConcurrencyTupleReader wrapped C) w t) s"
    by simp
  from reachable_limiter_ok [OF re boot_limiter_ok] have "limiter_ok s" by simp
  with a show ?thesis
    using Deferred_step by blast
  qed
  from all_calls_returned_with_iterators [OF assms, of w t]
  obtain s where r: "reachable (boot (NewBoundedConcurrencyTupleReader wrapped C) w t) s"
    and m: "map pc_call (calls s) = cs"
    and h: "list_all holds_iterator (calls s)"
    and l: "chan_len (limiter (reader s)) = 0"
    by blast
  from m have len: "length (calls s) = length cs" by (metis length_map)
  from count_all [OF h] len have o: "open_iterators s = length cs"
    by (simp add: open_iterators_def)
  from count_none [OF holds_iterator_not_holds_unit [OF h]]
  have u: "held_units s = 0" by (simp add: held_units_def)
  with executing_le_held [of s] have e: "executing s = 0" by simp
  from r m o u e l
  have two: "\<exists>s. reachable (boot (NewBoundedConcurrencyTupleReader wrapped C) w t) s
              \<and> map pc_call (calls s) = cs
              \<and> open_iterators s = length cs
              \<and> held_units s = 0
              \<and> executing s = 0
              \<and> chan_len (limiter (reader s)) = 0"
    by blast
  from one two show ?thesis by blast
qed

theorem unit_released_at_return_not_at_iterator_close_witness:
  "0 < unat (1 :: 32 word)
   \<and> list_all is_iterator_call [Read 0 ''store'' (7::nat), ReadUsersetTuples 1 ''store'' (8::nat)]
   \<and> (\<exists>s. reachable (echo_system 1) s
          \<and> map pc_call (calls s) = [Read 0 ''store'' 7, ReadUsersetTuples 1 ''store'' 8]
          \<and> open_iterators s = 2
          \<and> chan_len (limiter (reader s)) = 0)
   \<and> map_option (\<lambda>s. (calls s, open_iterators s, chan_len (limiter (reader s))))
       (run [Invoke (Read 0 ''store'' 7), Step 0, Step 0, Step 0, Step 0,
             Invoke (ReadUsersetTuples 1 ''store'' 8), Step 1, Step 1, Step 1, Step 1]
          (echo_system 1))
     = Some ([Returned (Read 0 ''store'' 7) (Iterator_reply [7] None),
              Returned (ReadUsersetTuples 1 ''store'' 8) (Iterator_reply [8] None)], 2, 0)"
proof -
  have h1: "0 < unat (1 :: 32 word)" by simp
  have h2: "\<forall>ctx cerr store tupleKey u.
      snd (fst (rd_Read echo_reader ctx cerr store tupleKey u)) = None"
    by (simp add: echo_reader_def)
  have h3: "\<forall>ctx cerr store flt u.
      snd (fst (rd_ReadUsersetTuples echo_reader ctx cerr store flt u)) = None"
    by (simp add: echo_reader_def)
  have h4: "list_all is_iterator_call
      [Read 0 ''store'' (7::nat), ReadUsersetTuples 1 ''store'' (8::nat)]"
    by simp
  from unit_released_at_return_not_at_iterator_close [OF h1 h2 h3 h4, of 0 0]
  have "\<exists>s. reachable (echo_system 1) s
          \<and> map pc_call (calls s) = [Read 0 ''store'' 7, ReadUsersetTuples 1 ''store'' 8]
          \<and> open_iterators s = 2
          \<and> chan_len (limiter (reader s)) = 0"
    unfolding echo_system_def by auto
  moreover have "map_option (\<lambda>s. (calls s, open_iterators s, chan_len (limiter (reader s))))
       (run [Invoke (Read 0 ''store'' 7), Step 0, Step 0, Step 0, Step 0,
             Invoke (ReadUsersetTuples 1 ''store'' 8), Step 1, Step 1, Step 1, Step 1]
          (echo_system 1))
     = Some ([Returned (Read 0 ''store'' 7) (Iterator_reply [7] None),
              Returned (ReadUsersetTuples 1 ''store'' 8) (Iterator_reply [8] None)], 2, 0)"
    by (simp add: run_simps open_iterators_def)
  ultimately show ?thesis using h1 h4 by blast
qed

subsection \<open>Every call takes a unit before it enters the wrapped reader\<close>

lemma handoff_never:
  assumes ok: "limiter_ok s"
  shows "fire (Handoff sn rc) s = None"
proof (rule ccontr)
  assume "fire (Handoff sn rc) s \<noteq> None"
  then obtain s' where f: "fire (Handoff sn rc) s = Some s'" by blast
  then obtain call' r where cap: "chan_cap (limiter (reader s)) = 0"
    and rc: "rc < length (calls s)" and prc: "calls s ! rc = Deferred call' r"
    by (auto split: if_splits pc.splits)
  from count_pos [OF rc, of holds_unit] prc have "0 < held_units s"
    unfolding held_units_def by simp
  with ok cap show False by (simp add: limiter_ok_def)
qed

lemma Sending_step:
  assumes "c < length (calls s)" and "calls s ! c = Sending call start"
  shows "fire (Step c) s =
           (if chan_len (limiter (reader s)) < chan_cap (limiter (reader s))
            then Some (s\<lparr>reader := (reader s)
                          \<lparr>limiter := (limiter (reader s))
                             \<lparr>chan_len := Suc (chan_len (limiter (reader s)))\<rparr>\<rparr>,
                        calls := (calls s)[c := Sent call start]\<rparr>)
            else None)"
  using assms by (simp add: step_def chan_send_def)

lemma Delegating_step:
  assumes "c < length (calls s)" and "calls s ! c = Delegating call"
  shows "fire (Step c) s =
           Some (s\<lparr>backend :=
                     snd (delegate (wrapped_reader (reader s)) call
                            (ctx_err s (call_ctx call)) (backend s)),
                   calls := (calls s)
                     [c := Deferred call
                             (fst (delegate (wrapped_reader (reader s)) call
                                     (ctx_err s (call_ctx call)) (backend s)))]\<rparr>)"
  using assms by (simp add: step_def split: prod.splits)

lemma step_gains_unit:
  assumes c0: "c0 < length (calls s)" and st: "step c0 s = Some s'"
      and c: "c < length (calls s')" and h: "holds_unit (calls s' ! c)"
  shows "c < length (calls s)
       \<and> (holds_unit (calls s ! c)
          \<or> (c0 = c \<and> is_Sending (calls s ! c)
              \<and> chan_len (limiter (reader s)) < chan_cap (limiter (reader s))
              \<and> chan_len (limiter (reader s')) = Suc (chan_len (limiter (reader s)))))"
proof (cases "calls s ! c0")
  case (Sending call t)
  with st c0 c h show ?thesis
    by (cases "c = c0") (auto simp: step_def chan_send_def split: if_splits)
next
  case (Sent call t)
  with st c0 c h show ?thesis
    by (cases "c = c0") (auto simp: step_def Let_def)
next
  case (Delegating call)
  with st c0 c h show ?thesis
    by (cases "c = c0") (auto simp: step_def split: prod.splits)
next
  case (Deferred call r)
  with st c0 c h show ?thesis
    by (cases "c = c0") (auto simp: step_def chan_recv_def split: if_splits)
next
  case (Returned call r)
  with st show ?thesis by (simp add: step_def)
qed

lemma fire_gains_unit:
  assumes ok: "limiter_ok s" and f: "fire ev s = Some s'"
      and c: "c < length (calls s')" and h: "holds_unit (calls s' ! c)"
  shows "c < length (calls s)
       \<and> (holds_unit (calls s ! c)
          \<or> (ev = Step c \<and> is_Sending (calls s ! c)
              \<and> chan_len (limiter (reader s)) < chan_cap (limiter (reader s))
              \<and> chan_len (limiter (reader s')) = Suc (chan_len (limiter (reader s)))))"
proof (cases ev)
  case (Invoke call)
  with f have s': "s' = s\<lparr>calls := calls s @ [Sending call (clock s)]\<rparr>" by simp
  show ?thesis
  proof (cases "c < length (calls s)")
    case True
    with h show ?thesis unfolding s' by (simp add: nth_append)
  next
    case False
    with c have "c = length (calls s)" unfolding s' by simp
    with h show ?thesis unfolding s' by simp
  qed
next
  case (Step c0)
  with f have c0: "c0 < length (calls s)" and st: "step c0 s = Some s'"
    by (auto split: if_splits)
  from step_gains_unit [OF c0 st c h] Step show ?thesis by auto
next
  case (Handoff sn rc)
  with f handoff_never [OF ok, of sn rc] show ?thesis by simp
next
  case (Tick d)
  with f c h show ?thesis by auto
next
  case (Done_fires ctx cerr)
  with f c h show ?thesis by auto
qed

lemma step_keeps_replies:
  assumes c0: "c0 < length (calls s)" and st: "step c0 s = Some s'"
      and nd: "\<And>call. calls s ! c0 \<noteq> Delegating call"
  shows "backend s' = backend s \<and> length (calls s') = length (calls s)
       \<and> (\<forall>c < length (calls s). pc_reply (calls s' ! c) = pc_reply (calls s ! c)
             \<and> pc_call (calls s' ! c) = pc_call (calls s ! c))"
proof (cases "calls s ! c0")
  case (Sending call t)
  with st c0 show ?thesis
    by (auto simp: step_def chan_send_def nth_list_update split: if_splits)
next
  case (Sent call t)
  with st c0 show ?thesis
    by (auto simp: step_def Let_def nth_list_update)
next
  case (Delegating call)
  with nd show ?thesis by blast
next
  case (Deferred call r)
  with st c0 show ?thesis
    by (auto simp: step_def chan_recv_def nth_list_update split: if_splits)
next
  case (Returned call r)
  with st show ?thesis by (simp add: step_def)
qed

lemma fire_enters_wrapped_reader:
  assumes ok: "limiter_ok s" and f: "fire ev s = Some s'"
  shows "(\<exists>c call. ev = Step c \<and> c < length (calls s) \<and> calls s ! c = Delegating call
            \<and> s' = s\<lparr>backend :=
                        snd (delegate (wrapped_reader (reader s)) call
                               (ctx_err s (call_ctx call)) (backend s)),
                      calls := (calls s)
                        [c := Deferred call
                                (fst (delegate (wrapped_reader (reader s)) call
                                        (ctx_err s (call_ctx call)) (backend s)))]\<rparr>)
       \<or> (backend s' = backend s
           \<and> (\<forall>c. c < length (calls s') \<and> pc_reply (calls s' ! c) \<noteq> None \<longrightarrow>
                 c < length (calls s) \<and> pc_reply (calls s ! c) = pc_reply (calls s' ! c)))"
proof (cases ev)
  case (Invoke call)
  with f have s': "s' = s\<lparr>calls := calls s @ [Sending call (clock s)]\<rparr>" by simp
  have "c < length (calls s) \<and> pc_reply (calls s ! c) = pc_reply (calls s' ! c)"
    if "c < length (calls s')" and "pc_reply (calls s' ! c) \<noteq> None" for c
  proof (cases "c < length (calls s)")
    case True
    then show ?thesis unfolding s' by (simp add: nth_append)
  next
    case False
    with that(1) have "c = length (calls s)" unfolding s' by simp
    with that(2) show ?thesis unfolding s' by simp
  qed
  moreover have "backend s' = backend s" unfolding s' by simp
  ultimately show ?thesis by blast
next
  case (Step c0)
  with f have c0: "c0 < length (calls s)" and st: "step c0 s = Some s'"
    by (auto split: if_splits)
  show ?thesis
  proof (cases "\<exists>call. calls s ! c0 = Delegating call")
    case True
    then obtain call where p: "calls s ! c0 = Delegating call" ..
    from Delegating_step [OF c0 p] f Step p c0 show ?thesis by auto
  next
    case False
    then have nd: "\<And>call. calls s ! c0 \<noteq> Delegating call" by blast
    from step_keeps_replies [OF c0 st nd] show ?thesis by auto
  qed
next
  case (Handoff sn rc)
  with f handoff_never [OF ok, of sn rc] show ?thesis by simp
next
  case (Tick d)
  with f show ?thesis by auto
next
  case (Done_fires ctx cerr)
  with f show ?thesis by auto
qed

text \<open>
  Claim C1. From a reader built by \<open>NewBoundedConcurrencyTupleReader\<close> with capacity
  \<open>C\<close>, whatever calls of the three methods are made and however their steps
  interleave:
  \<^item> the calls that hold a unit (between their send and their deferred receive) are
    exactly as many as the elements buffered in the channel, never more than \<open>C\<close>,
    and the calls inside the wrapped reader are among them, so at most \<open>C\<close>;
  \<^item> every call, of whichever method, begins at the send;
  \<^item> a call at the send moves in one way only: when the channel holds fewer than
    \<open>C\<close> elements it puts one more in and stands past the send, otherwise it cannot
    move; on the unbuffered channel no hand-off ever happens;
  \<^item> a call comes to hold a unit only by that step of its own;
  \<^item> the wrapped reader runs only in the step of a call that stands at \<open>Delegating\<close>,
    where it holds a unit: every other event leaves the storage as it was and gives
    no call a reply.
\<close>

theorem at_most_C_calls_in_wrapped_reader:
  assumes "reachable (boot (NewBoundedConcurrencyTupleReader wrapped C) w t) s"
  shows "executing s \<le> unat C
       \<and> executing s \<le> held_units s
       \<and> held_units s = chan_len (limiter (reader s))
       \<and> chan_len (limiter (reader s)) \<le> unat C
       \<and> chan_cap (limiter (reader s)) = unat C
       \<and> fire (Invoke call) s = Some (s\<lparr>calls := calls s @ [Sending call (clock s)]\<rparr>)
       \<and> (\<forall>c call start. c < length (calls s) \<and> calls s ! c = Sending call start \<longrightarrow>
            fire (Step c) s =
              (if chan_len (limiter (reader s)) < unat C
               then Some (s\<lparr>reader := (reader s)
                             \<lparr>limiter := (limiter (reader s))
                                \<lparr>chan_len := Suc (chan_len (limiter (reader s)))\<rparr>\<rparr>,
                           calls := (calls s)[c := Sent call start]\<rparr>)
               else None))
       \<and> fire (Handoff sn rc) s = None
       \<and> (\<forall>ev s' c. fire ev s = Some s' \<and> c < length (calls s')
                      \<and> holds_unit (calls s' ! c) \<longrightarrow>
            c < length (calls s)
            \<and> (holds_unit (calls s ! c)
               \<or> (ev = Step c \<and> is_Sending (calls s ! c)
                   \<and> chan_len (limiter (reader s)) < unat C
                   \<and> chan_len (limiter (reader s')) = Suc (chan_len (limiter (reader s))))))
       \<and> (\<forall>ev s'. fire ev s = Some s' \<longrightarrow>
            (\<exists>c call. ev = Step c \<and> c < length (calls s) \<and> calls s ! c = Delegating call
               \<and> holds_unit (calls s ! c)
               \<and> s' = s\<lparr>backend :=
                           snd (delegate wrapped call (ctx_err s (call_ctx call)) (backend s)),
                         calls := (calls s)
                           [c := Deferred call
                                   (fst (delegate wrapped call (ctx_err s (call_ctx call))
                                           (backend s)))]\<rparr>)
            \<or> (backend s' = backend s
                \<and> (\<forall>c. c < length (calls s') \<and> pc_reply (calls s' ! c) \<noteq> None \<longrightarrow>
                      c < length (calls s)
                      \<and> pc_reply (calls s ! c) = pc_reply (calls s' ! c))))"
proof -
  from reachable_limiter_ok [OF assms boot_limiter_ok]
  have ok: "limiter_ok s"
    and cap: "chan_cap (limiter (reader s)) = unat C"
    and wr: "wrapped_reader (reader s) = wrapped"
    by (simp_all add: boot_def NewBoundedConcurrencyTupleReader_def make_chan_def)
  from ok cap executing_le_held [of s]
  have bound: "executing s \<le> unat C
       \<and> executing s \<le> held_units s
       \<and> held_units s = chan_len (limiter (reader s))
       \<and> chan_len (limiter (reader s)) \<le> unat C
       \<and> chan_cap (limiter (reader s)) = unat C"
    by (simp add: limiter_ok_def)
  have enter: "fire (Invoke call) s = Some (s\<lparr>calls := calls s @ [Sending call (clock s)]\<rparr>)"
    by simp
  have send: "\<forall>c call start. c < length (calls s) \<and> calls s ! c = Sending call start \<longrightarrow>
            fire (Step c) s =
              (if chan_len (limiter (reader s)) < unat C
               then Some (s\<lparr>reader := (reader s)
                             \<lparr>limiter := (limiter (reader s))
                                \<lparr>chan_len := Suc (chan_len (limiter (reader s)))\<rparr>\<rparr>,
                           calls := (calls s)[c := Sent call start]\<rparr>)
               else None)"
    using Sending_step [of _ s] cap by simp
  have hand: "fire (Handoff sn rc) s = None"
    by (rule handoff_never [OF ok])
  have gain: "\<forall>ev s' c. fire ev s = Some s' \<and> c < length (calls s')
                      \<and> holds_unit (calls s' ! c) \<longrightarrow>
            c < length (calls s)
            \<and> (holds_unit (calls s ! c)
               \<or> (ev = Step c \<and> is_Sending (calls s ! c)
                   \<and> chan_len (limiter (reader s)) < unat C
                   \<and> chan_len (limiter (reader s')) = Suc (chan_len (limiter (reader s)))))"
    using fire_gains_unit [OF ok] cap by metis
  have only: "\<forall>ev s'. fire ev s = Some s' \<longrightarrow>
            (\<exists>c call. ev = Step c \<and> c < length (calls s) \<and> calls s ! c = Delegating call
               \<and> holds_unit (calls s ! c)
               \<and> s' = s\<lparr>backend :=
                           snd (delegate wrapped call (ctx_err s (call_ctx call)) (backend s)),
                         calls := (calls s)
                           [c := Deferred call
                                   (fst (delegate wrapped call (ctx_err s (call_ctx call))
                                           (backend s)))]\<rparr>)
            \<or> (backend s' = backend s
                \<and> (\<forall>c. c < length (calls s') \<and> pc_reply (calls s' ! c) \<noteq> None \<longrightarrow>
                      c < length (calls s)
                      \<and> pc_reply (calls s ! c) = pc_reply (calls s' ! c)))"
  proof (intro allI impI)
    fix ev s'
    assume f: "fire ev s = Some s'"
    from fire_enters_wrapped_reader [OF ok f] wr
    show "(\<exists>c call. ev = Step c \<and> c < length (calls s) \<and> calls s ! c = Delegating call
               \<and> holds_unit (calls s ! c)
               \<and> s' = s\<lparr>backend :=
                           snd (delegate wrapped call (ctx_err s (call_ctx call)) (backend s)),
                         calls := (calls s)
                           [c := Deferred call
                                   (fst (delegate wrapped call (ctx_err s (call_ctx call))
                                           (backend s)))]\<rparr>)
            \<or> (backend s' = backend s
                \<and> (\<forall>c. c < length (calls s') \<and> pc_reply (calls s' ! c) \<noteq> None \<longrightarrow>
                      c < length (calls s)
                      \<and> pc_reply (calls s ! c) = pc_reply (calls s' ! c)))"
      by (elim disjE exE conjE) (auto simp del: fire.simps)
  qed
  from bound enter send hand gain only show ?thesis by blast
qed

theorem at_most_C_calls_in_wrapped_reader_witness:
  "map_option (\<lambda>s. (calls s, executing s, chan_len (limiter (reader s)),
                      fire (Step 2) s = None))
     (run [Invoke (ReadUserTuple 0 ''store'' 7), Invoke (Read 1 ''store'' 8),
           Invoke (ReadUsersetTuples 2 ''store'' 9), Step 0, Step 0, Step 1, Step 1, Tick 3]
        (echo_system 2))
     = Some ([Delegating (ReadUserTuple 0 ''store'' 7), Delegating (Read 1 ''store'' 8),
              Sending (ReadUsersetTuples 2 ''store'' 9) 0],
             unat (2 :: 32 word), 2, True)"
proof -
  let ?evs = "[Invoke (ReadUserTuple 0 ''store'' 7), Invoke (Read 1 ''store'' 8),
               Invoke (ReadUsersetTuples 2 ''store'' 9), Step 0, Step 0, Step 1, Step 1,
               Tick 3] :: (nat, nat) event list"
  obtain s where r: "run ?evs (echo_system 2) = Some s"
    by (simp add: run_simps)
  have cs: "calls s = [Delegating (ReadUserTuple 0 ''store'' 7),
                       Delegating (Read 1 ''store'' 8),
                       Sending (ReadUsersetTuples 2 ''store'' 9) 0]"
    using r by (auto simp: run_simps)
  have ex: "executing s = 2" using cs by (simp add: executing_def)
  have "reachable (echo_system 2) s"
    using r reachable.start by (rule run_reachable)
  then have re: "reachable (boot (NewBoundedConcurrencyTupleReader echo_reader 2) 0 0) s"
    by (simp add: echo_system_def)
  note T = at_most_C_calls_in_wrapped_reader [OF re]
  from T ex have le: "executing s \<le> unat (2 :: 32 word)" by blast
  from T have hl: "held_units s = chan_len (limiter (reader s))" by blast
  from cs have "held_units s = 2" by (simp add: held_units_def)
  with hl have l: "chan_len (limiter (reader s)) = 2" by simp
  from T have "\<forall>c call start. c < length (calls s) \<and> calls s ! c = Sending call start \<longrightarrow>
            fire (Step c) s =
              (if chan_len (limiter (reader s)) < unat (2 :: 32 word)
               then Some (s\<lparr>reader := (reader s)
                             \<lparr>limiter := (limiter (reader s))
                                \<lparr>chan_len := Suc (chan_len (limiter (reader s)))\<rparr>\<rparr>,
                           calls := (calls s)[c := Sent call start]\<rparr>)
               else None)"
    by blast
  from this [rule_format, of 2 "ReadUsersetTuples 2 ''store'' 9" 0] cs l
  have b: "fire (Step 2) s = None" by (simp del: fire.simps)
  from r cs ex l b le show ?thesis by (simp del: fire.simps)
qed

subsection \<open>What a call returns is what the wrapped reader returned\<close>

lemma run_append:
  "run (xs @ ys) s = (case run xs s of None \<Rightarrow> None | Some s' \<Rightarrow> run ys s')"
  by (induction xs arbitrary: s) (auto split: option.splits)

lemma step_keeps_call:
  assumes c0: "c0 < length (calls s)" and st: "step c0 s = Some s'"
      and c: "c < length (calls s)"
  shows "pc_call (calls s' ! c) = pc_call (calls s ! c)
       \<and> (pc_reply (calls s ! c) \<noteq> None \<longrightarrow>
            pc_reply (calls s' ! c) = pc_reply (calls s ! c))"
proof (cases "calls s ! c0")
  case (Sending call t)
  with st c0 c show ?thesis
    by (cases "c = c0") (auto simp: step_def chan_send_def split: if_splits)
next
  case (Sent call t)
  with st c0 c show ?thesis
    by (cases "c = c0") (auto simp: step_def Let_def)
next
  case (Delegating call)
  with st c0 c show ?thesis
    by (cases "c = c0") (auto simp: step_def split: prod.splits)
next
  case (Deferred call r)
  with st c0 c show ?thesis
    by (cases "c = c0") (auto simp: step_def chan_recv_def split: if_splits)
next
  case (Returned call r)
  with st show ?thesis by (simp add: step_def)
qed

lemma fire_keeps_call:
  assumes ok: "limiter_ok s" and f: "fire ev s = Some s'" and c: "c < length (calls s)"
  shows "pc_call (calls s' ! c) = pc_call (calls s ! c)
       \<and> (pc_reply (calls s ! c) \<noteq> None \<longrightarrow>
            pc_reply (calls s' ! c) = pc_reply (calls s ! c))"
proof (cases ev)
  case (Invoke call)
  with f c show ?thesis by (auto simp: nth_append)
next
  case (Step c0)
  with f have c0: "c0 < length (calls s)" and st: "step c0 s = Some s'"
    by (auto split: if_splits)
  from step_keeps_call [OF c0 st c] show ?thesis .
next
  case (Handoff sn rc)
  with f handoff_never [OF ok, of sn rc] show ?thesis by simp
next
  case (Tick d)
  with f show ?thesis by auto
next
  case (Done_fires ctx cerr)
  with f show ?thesis by auto
qed

lemma zero_capacity_fire:
  assumes cap: "chan_cap (limiter (reader s)) = 0" and all: "list_all is_Sending (calls s)"
      and f: "fire ev s = Some s'"
  shows "chan_cap (limiter (reader s')) = 0 \<and> list_all is_Sending (calls s')"
proof (cases ev)
  case (Invoke call)
  with cap all f show ?thesis by auto
next
  case (Step c)
  with f have c: "c < length (calls s)" and st: "step c s = Some s'"
    by (auto split: if_splits)
  from all c have "is_Sending (calls s ! c)" by (simp add: list_all_length)
  then obtain call t where "calls s ! c = Sending call t"
    by (cases "calls s ! c") auto
  with st cap show ?thesis by (simp add: step_def chan_send_def)
next
  case (Handoff sn rc)
  with f obtain call' r where rc: "rc < length (calls s)"
    and prc: "calls s ! rc = Deferred call' r"
    by (auto split: if_splits pc.splits)
  from all rc have "is_Sending (calls s ! rc)" by (simp add: list_all_length)
  with prc show ?thesis by simp
next
  case (Tick d)
  with cap all f show ?thesis by auto
next
  case (Done_fires ctx cerr)
  with cap all f show ?thesis by auto
qed

lemma zero_capacity_reachable:
  assumes "reachable s0 s" and "chan_cap (limiter (reader s0)) = 0" and "calls s0 = []"
  shows "chan_cap (limiter (reader s)) = 0 \<and> list_all is_Sending (calls s)"
  using assms
proof (induction rule: reachable.induct)
  case start
  then show ?case by simp
next
  case (after s ev s')
  from after.IH [OF after.prems] after.hyps(2) show ?case
    using zero_capacity_fire by blast
qed

lemma finish_holder:
  assumes ok: "limiter_ok s" and c: "c < length (calls s)" and h: "holds_unit (calls s ! c)"
  shows "\<exists>evs s' r. run evs s = Some s'
           \<and> calls s' = (calls s)[c := Returned (pc_call (calls s ! c)) r]
           \<and> Suc (chan_len (limiter (reader s'))) = chan_len (limiter (reader s))
           \<and> chan_cap (limiter (reader s')) = chan_cap (limiter (reader s))"
proof -
  from count_pos [OF c, of holds_unit] h have "0 < held_units s"
    unfolding held_units_def by blast
  with ok have pos: "0 < chan_len (limiter (reader s))" by (simp add: limiter_ok_def)
  show ?thesis
  proof (cases "calls s ! c")
    case (Sending call t)
    with h show ?thesis by simp
  next
    case (Sent call t)
    obtain r w' where d: "delegate (wrapped_reader (reader s)) call
        (ctx_err s (call_ctx call)) (backend s) = (r, w')"
      by (cases "delegate (wrapped_reader (reader s)) call (ctx_err s (call_ctx call))
           (backend s)")
    have "\<exists>s'. run [Step c, Step c, Step c] s = Some s'
           \<and> calls s' = (calls s)[c := Returned call r]
           \<and> Suc (chan_len (limiter (reader s'))) = chan_len (limiter (reader s))
           \<and> chan_cap (limiter (reader s')) = chan_cap (limiter (reader s))"
      using c Sent d pos by (simp add: step_def chan_recv_def Let_def)
    then show ?thesis unfolding Sent pc_call.simps by blast
  next
    case (Delegating call)
    obtain r w' where d: "delegate (wrapped_reader (reader s)) call
        (ctx_err s (call_ctx call)) (backend s) = (r, w')"
      by (cases "delegate (wrapped_reader (reader s)) call (ctx_err s (call_ctx call))
           (backend s)")
    have "\<exists>s'. run [Step c, Step c] s = Some s'
           \<and> calls s' = (calls s)[c := Returned call r]
           \<and> Suc (chan_len (limiter (reader s'))) = chan_len (limiter (reader s))
           \<and> chan_cap (limiter (reader s')) = chan_cap (limiter (reader s))"
      using c Delegating d pos by (simp add: step_def chan_recv_def)
    then show ?thesis unfolding Delegating pc_call.simps by blast
  next
    case (Deferred call r)
    have "\<exists>s'. run [Step c] s = Some s'
           \<and> calls s' = (calls s)[c := Returned call r]
           \<and> Suc (chan_len (limiter (reader s'))) = chan_len (limiter (reader s))
           \<and> chan_cap (limiter (reader s')) = chan_cap (limiter (reader s))"
      using c Deferred pos by (simp add: step_def chan_recv_def)
    then show ?thesis unfolding Deferred pc_call.simps by blast
  next
    case (Returned call r)
    with h show ?thesis by simp
  qed
qed

lemma finish_waiter:
  assumes c: "c < length (calls s)" and p: "calls s ! c = Sending call start"
      and room: "chan_len (limiter (reader s)) < chan_cap (limiter (reader s))"
  shows "\<exists>s' r. run [Step c, Step c, Step c, Step c] s = Some s'
           \<and> calls s' = (calls s)[c := Returned call r]"
proof -
  obtain r w' where d: "delegate (wrapped_reader (reader s)) call
      (ctx_err s (call_ctx call)) (backend s) = (r, w')"
    by (cases "delegate (wrapped_reader (reader s)) call (ctx_err s (call_ctx call))
         (backend s)")
  have "\<exists>s'. run [Step c, Step c, Step c, Step c] s = Some s'
           \<and> calls s' = (calls s)[c := Returned call r]"
    using c p d room by (simp add: step_def chan_send_def chan_recv_def Let_def)
  then show ?thesis by blast
qed

lemma some_holder:
  assumes "0 < length (filter P xs)"
  shows "\<exists>i < length xs. P (xs ! i)"
proof -
  from assms have "filter P xs \<noteq> []" by simp
  then obtain x where "x \<in> set xs" and "P x" by (auto simp: filter_empty_conv)
  then show ?thesis by (auto simp: in_set_conv_nth)
qed

lemma every_call_can_return:
  assumes ok: "limiter_ok s" and cap: "0 < chan_cap (limiter (reader s))"
      and c: "c < length (calls s)"
  shows "\<exists>evs s' r. run evs s = Some s' \<and> calls s' ! c = Returned (pc_call (calls s ! c)) r"
proof (cases "calls s ! c")
  case (Sending call t)
  show ?thesis
  proof (cases "chan_len (limiter (reader s)) < chan_cap (limiter (reader s))")
    case True
    from finish_waiter [OF c Sending True] c Sending show ?thesis by fastforce
  next
    case False
    with ok cap have "0 < held_units s" by (simp add: limiter_ok_def)
    from some_holder [OF this [unfolded held_units_def]]
    obtain c' where c': "c' < length (calls s)" and h: "holds_unit (calls s ! c')" by blast
    from h Sending have ne: "c' \<noteq> c" by auto
    from finish_holder [OF ok c' h] obtain evs s1 r1 where
      r1: "run evs s = Some s1"
      and cs1: "calls s1 = (calls s)[c' := Returned (pc_call (calls s ! c')) r1]"
      and l1: "Suc (chan_len (limiter (reader s1))) = chan_len (limiter (reader s))"
      and k1: "chan_cap (limiter (reader s1)) = chan_cap (limiter (reader s))"
      by blast
    from ok have "chan_len (limiter (reader s)) \<le> chan_cap (limiter (reader s))"
      by (simp add: limiter_ok_def)
    with l1 k1 have room: "chan_len (limiter (reader s1)) < chan_cap (limiter (reader s1))"
      by simp
    from cs1 c have c1: "c < length (calls s1)" by simp
    from cs1 ne Sending have p1: "calls s1 ! c = Sending call t" by simp
    from finish_waiter [OF c1 p1 room] obtain s2 r2 where
      r2: "run [Step c, Step c, Step c, Step c] s1 = Some s2"
      and cs2: "calls s2 = (calls s1)[c := Returned call r2]"
      by blast
    from r1 r2 have "run (evs @ [Step c, Step c, Step c, Step c]) s = Some s2"
      by (simp add: run_append del: run.simps)
    moreover from cs2 c1 have "calls s2 ! c = Returned call r2" by simp
    ultimately show ?thesis using Sending by fastforce
  qed
next
  case (Sent call t)
  then have h: "holds_unit (calls s ! c)" by simp
  from finish_holder [OF ok c h] c show ?thesis by fastforce
next
  case (Delegating call)
  then have h: "holds_unit (calls s ! c)" by simp
  from finish_holder [OF ok c h] c show ?thesis by fastforce
next
  case (Deferred call r)
  then have h: "holds_unit (calls s ! c)" by simp
  from finish_holder [OF ok c h] c show ?thesis by fastforce
next
  case (Returned call r)
  have "run [] s = Some s" by simp
  with Returned show ?thesis by fastforce
qed

lemma fire_reply_origin:
  assumes ok: "limiter_ok s" and f: "fire ev s = Some s'"
      and c: "c < length (calls s')" and r: "pc_reply (calls s' ! c) \<noteq> None"
  shows "c < length (calls s)
       \<and> (pc_reply (calls s ! c) = pc_reply (calls s' ! c)
          \<or> (ev = Step c \<and> calls s ! c = Delegating (pc_call (calls s ! c))))"
proof -
  from fire_enters_wrapped_reader [OF ok f]
  show ?thesis
  proof
    assume "\<exists>c0 call. ev = Step c0 \<and> c0 < length (calls s) \<and> calls s ! c0 = Delegating call
            \<and> s' = s\<lparr>backend :=
                        snd (delegate (wrapped_reader (reader s)) call
                               (ctx_err s (call_ctx call)) (backend s)),
                      calls := (calls s)
                        [c0 := Deferred call
                                (fst (delegate (wrapped_reader (reader s)) call
                                        (ctx_err s (call_ctx call)) (backend s)))]\<rparr>"
    then obtain c0 call where ev: "ev = Step c0" and c0: "c0 < length (calls s)"
      and p: "calls s ! c0 = Delegating call"
      and cs: "calls s' = (calls s)
                        [c0 := Deferred call
                                (fst (delegate (wrapped_reader (reader s)) call
                                        (ctx_err s (call_ctx call)) (backend s)))]"
      by auto
    from cs c have cl: "c < length (calls s)" by simp
    show ?thesis
    proof (cases "c = c0")
      case True
      with ev p cl show ?thesis by simp
    next
      case False
      with cs have "calls s' ! c = calls s ! c" by simp
      with cl show ?thesis by simp
    qed
  next
    assume "backend s' = backend s
           \<and> (\<forall>c. c < length (calls s') \<and> pc_reply (calls s' ! c) \<noteq> None \<longrightarrow>
                 c < length (calls s) \<and> pc_reply (calls s ! c) = pc_reply (calls s' ! c))"
    with c r show ?thesis by blast
  qed
qed

text \<open>
  Claim C5. In every state reached from a reader built by
  \<open>NewBoundedConcurrencyTupleReader\<close>:
  \<^item> the calls, their replies and the storage, with channel and telemetry forgotten,
    are ones that the same calls made directly on the wrapped reader produce;
  \<^item> the step of a call inside the wrapped reader is the wrapped reader's own method
    of the same name (\<open>rd_ReadUserTuple\<close>, \<open>rd_Read\<close>, \<open>rd_ReadUsersetTuples\<close>) on the
    context, store and key or filter of the call: the value and the error it gives
    become the call's reply as they are, and the storage is left as the method leaves
    it;
  \<^item> the deferred receive then returns that reply; no event changes the method or the
    arguments of a call, or a reply once given; and a call gets a reply in no other
    way than by that step inside the wrapped reader;
  \<^item> with capacity at least 1 every call made can be run to its return; with capacity
    0 no call ever gets past the send, so none returns anything.
\<close>

theorem bounded_reader_passes_results_through:
  assumes "reachable (boot (NewBoundedConcurrencyTupleReader wrapped C) w t) s"
  shows "direct_reachable wrapped
           (abstraction (boot (NewBoundedConcurrencyTupleReader wrapped C) w t))
           (abstraction s)
       \<and> (\<forall>c ctx store tupleKey.
            c < length (calls s) \<and> calls s ! c = Delegating (ReadUserTuple ctx store tupleKey)
            \<longrightarrow>
            fire (Step c) s =
              Some (s\<lparr>backend :=
                        snd (rd_ReadUserTuple wrapped ctx (ctx_err s ctx) store tupleKey
                               (backend s)),
                      calls := (calls s)
                        [c := Deferred (ReadUserTuple ctx store tupleKey)
                           (Tuple_reply
                              (fst (fst (rd_ReadUserTuple wrapped ctx (ctx_err s ctx) store
                                           tupleKey (backend s))))
                              (snd (fst (rd_ReadUserTuple wrapped ctx (ctx_err s ctx) store
                                           tupleKey (backend s)))))]\<rparr>))
       \<and> (\<forall>c ctx store tupleKey.
            c < length (calls s) \<and> calls s ! c = Delegating (Read ctx store tupleKey)
            \<longrightarrow>
            fire (Step c) s =
              Some (s\<lparr>backend :=
                        snd (rd_Read wrapped ctx (ctx_err s ctx) store tupleKey (backend s)),
                      calls := (calls s)
                        [c := Deferred (Read ctx store tupleKey)
                           (Iterator_reply
                              (fst (fst (rd_Read wrapped ctx (ctx_err s ctx) store tupleKey
                                           (backend s))))
                              (snd (fst (rd_Read wrapped ctx (ctx_err s ctx) store tupleKey
                                           (backend s)))))]\<rparr>))
       \<and> (\<forall>c ctx store flt.
            c < length (calls s) \<and> calls s ! c = Delegating (ReadUsersetTuples ctx store flt)
            \<longrightarrow>
            fire (Step c) s =
              Some (s\<lparr>backend :=
                        snd (rd_ReadUsersetTuples wrapped ctx (ctx_err s ctx) store flt
                               (backend s)),
                      calls := (calls s)
                        [c := Deferred (ReadUsersetTuples ctx store flt)
                           (Iterator_reply
                              (fst (fst (rd_ReadUsersetTuples wrapped ctx (ctx_err s ctx) store
                                           flt (backend s))))
                              (snd (fst (rd_ReadUsersetTuples wrapped ctx (ctx_err s ctx) store
                                           flt (backend s)))))]\<rparr>))
       \<and> (\<forall>c call r. c < length (calls s) \<and> calls s ! c = Deferred call r \<longrightarrow>
            (\<exists>s'. fire (Step c) s = Some s' \<and> calls s' = (calls s)[c := Returned call r]
                  \<and> backend s' = backend s))
       \<and> (\<forall>ev s' c. fire ev s = Some s' \<and> c < length (calls s) \<longrightarrow>
            pc_call (calls s' ! c) = pc_call (calls s ! c)
            \<and> (pc_reply (calls s ! c) \<noteq> None \<longrightarrow>
                 pc_reply (calls s' ! c) = pc_reply (calls s ! c)))
       \<and> (\<forall>ev s' c. fire ev s = Some s' \<and> c < length (calls s')
                      \<and> pc_reply (calls s' ! c) \<noteq> None \<longrightarrow>
            c < length (calls s)
            \<and> (pc_reply (calls s ! c) = pc_reply (calls s' ! c)
               \<or> (ev = Step c \<and> calls s ! c = Delegating (pc_call (calls s ! c)))))
       \<and> (0 < unat C \<longrightarrow>
            (\<forall>c < length (calls s). \<exists>evs s' r.
               run evs s = Some s' \<and> calls s' ! c = Returned (pc_call (calls s ! c)) r))
       \<and> (unat C = 0 \<longrightarrow> list_all is_Sending (calls s))"
proof -
  let ?s0 = "boot (NewBoundedConcurrencyTupleReader wrapped C) w t"
  from reachable_limiter_ok [OF assms boot_limiter_ok]
  have ok: "limiter_ok s"
    and cap: "chan_cap (limiter (reader s)) = unat C"
    and wr: "wrapped_reader (reader s) = wrapped"
    by (simp_all add: boot_def NewBoundedConcurrencyTupleReader_def make_chan_def)
  from reachable_simulated [OF assms]
  have sim: "direct_reachable wrapped (abstraction ?s0) (abstraction s)"
    by (simp add: boot_def NewBoundedConcurrencyTupleReader_def)
  have m1: "\<forall>c ctx store tupleKey.
            c < length (calls s) \<and> calls s ! c = Delegating (ReadUserTuple ctx store tupleKey)
            \<longrightarrow>
            fire (Step c) s =
              Some (s\<lparr>backend :=
                        snd (rd_ReadUserTuple wrapped ctx (ctx_err s ctx) store tupleKey
                               (backend s)),
                      calls := (calls s)
                        [c := Deferred (ReadUserTuple ctx store tupleKey)
                           (Tuple_reply
                              (fst (fst (rd_ReadUserTuple wrapped ctx (ctx_err s ctx) store
                                           tupleKey (backend s))))
                              (snd (fst (rd_ReadUserTuple wrapped ctx (ctx_err s ctx) store
                                           tupleKey (backend s)))))]\<rparr>)"
    using wr by (simp add: step_def split: prod.splits)
  have m2: "\<forall>c ctx store tupleKey.
            c < length (calls s) \<and> calls s ! c = Delegating (Read ctx store tupleKey)
            \<longrightarrow>
            fire (Step c) s =
              Some (s\<lparr>backend :=
                        snd (rd_Read wrapped ctx (ctx_err s ctx) store tupleKey (backend s)),
                      calls := (calls s)
                        [c := Deferred (Read ctx store tupleKey)
                           (Iterator_reply
                              (fst (fst (rd_Read wrapped ctx (ctx_err s ctx) store tupleKey
                                           (backend s))))
                              (snd (fst (rd_Read wrapped ctx (ctx_err s ctx) store tupleKey
                                           (backend s)))))]\<rparr>)"
    using wr by (simp add: step_def split: prod.splits)
  have m3: "\<forall>c ctx store flt.
            c < length (calls s) \<and> calls s ! c = Delegating (ReadUsersetTuples ctx store flt)
            \<longrightarrow>
            fire (Step c) s =
              Some (s\<lparr>backend :=
                        snd (rd_ReadUsersetTuples wrapped ctx (ctx_err s ctx) store flt
                               (backend s)),
                      calls := (calls s)
                        [c := Deferred (ReadUsersetTuples ctx store flt)
                           (Iterator_reply
                              (fst (fst (rd_ReadUsersetTuples wrapped ctx (ctx_err s ctx) store
                                           flt (backend s))))
                              (snd (fst (rd_ReadUsersetTuples wrapped ctx (ctx_err s ctx) store
                                           flt (backend s)))))]\<rparr>)"
    using wr by (simp add: step_def split: prod.splits)
  have ret: "\<forall>c call r. c < length (calls s) \<and> calls s ! c = Deferred call r \<longrightarrow>
            (\<exists>s'. fire (Step c) s = Some s' \<and> calls s' = (calls s)[c := Returned call r]
                  \<and> backend s' = backend s)"
  proof (intro allI impI)
    fix c call r
    assume a: "c < length (calls s) \<and> calls s ! c = Deferred call r"
    with Deferred_step [OF ok, of c call r]
    show "\<exists>s'. fire (Step c) s = Some s' \<and> calls s' = (calls s)[c := Returned call r]
                  \<and> backend s' = backend s"
      by (simp del: fire.simps)
  qed
  have keep: "\<forall>ev s' c. fire ev s = Some s' \<and> c < length (calls s) \<longrightarrow>
            pc_call (calls s' ! c) = pc_call (calls s ! c)
            \<and> (pc_reply (calls s ! c) \<noteq> None \<longrightarrow>
                 pc_reply (calls s' ! c) = pc_reply (calls s ! c))"
    using fire_keeps_call [OF ok] by blast
  have origin: "\<forall>ev s' c. fire ev s = Some s' \<and> c < length (calls s')
                      \<and> pc_reply (calls s' ! c) \<noteq> None \<longrightarrow>
            c < length (calls s)
            \<and> (pc_reply (calls s ! c) = pc_reply (calls s' ! c)
               \<or> (ev = Step c \<and> calls s ! c = Delegating (pc_call (calls s ! c))))"
    using fire_reply_origin [OF ok] by blast
  have live: "0 < unat C \<longrightarrow>
            (\<forall>c < length (calls s). \<exists>evs s' r.
               run evs s = Some s' \<and> calls s' ! c = Returned (pc_call (calls s ! c)) r)"
    using every_call_can_return [OF ok] cap by simp
  have dead: "unat C = 0 \<longrightarrow> list_all is_Sending (calls s)"
  proof
    assume z: "unat C = 0"
    have "chan_cap (limiter (reader ?s0)) = 0" "calls ?s0 = []"
      using z by (simp_all add: boot_def NewBoundedConcurrencyTupleReader_def make_chan_def)
    from zero_capacity_reachable [OF assms this] show "list_all is_Sending (calls s)"
      by simp
  qed
  from sim m1 m2 m3 ret keep origin live dead show ?thesis by blast
qed

lemmas probe_simps = fire.simps step_def boot_def NewBoundedConcurrencyTupleReader_def
  make_chan_def chan_send_def chan_recv_def probe_system_def probe_reader_def
  probe_answer_def Let_def Observe_def Milliseconds_def Sub_def
  timeWaitingSpanAttribute_def boundedReadDelayMsHistogram_def

theorem bounded_reader_passes_results_through_witness:
  "map_option
     (\<lambda>s. (calls s,
            map_option (\<lambda>u. (calls u ! 0, backend u)) (fire (Step 0) s),
            map_option (\<lambda>u. (calls u ! 1, backend u)) (fire (Step 1) s),
            map_option (\<lambda>u. (calls u ! 2, backend u)) (fire (Step 2) s)))
     (run [Invoke (ReadUserTuple 3 ''store'' 0), Invoke (Read 4 ''st'' 8),
           Invoke (ReadUsersetTuples 5 ''s'' 9), Done_fires 4 Canceled,
           Step 0, Step 0, Step 1, Step 1, Step 2, Step 2] (probe_system 3))
     = Some ([Delegating (ReadUserTuple 3 ''store'' 0), Delegating (Read 4 ''st'' 8),
              Delegating (ReadUsersetTuples 5 ''s'' 9)],
             Some (Deferred (ReadUserTuple 3 ''store'' 0)
                     (Tuple_reply [3, 5, 0, 0] (Some ''not found'')), 1),
             Some (Deferred (Read 4 ''st'' 8)
                     (Iterator_reply [4, 2, 8, 0] (Some ''context done'')), 1),
             Some (Deferred (ReadUsersetTuples 5 ''s'' 9)
                     (Iterator_reply [5, 1, 1009, 0] None), 1))
   \<and> rd_ReadUserTuple probe_reader 3 None ''store'' 0 0
       = (([3, 5, 0, 0], Some ''not found''), 1)
   \<and> rd_Read probe_reader 4 (Some Canceled) ''st'' 8 0
       = (([4, 2, 8, 0], Some ''context done''), 1)
   \<and> rd_ReadUsersetTuples probe_reader 5 None ''s'' 9 0
       = (([5, 1, 1009, 0], None), 1)"
proof -
  let ?evs = "[Invoke (ReadUserTuple 3 ''store'' 0), Invoke (Read 4 ''st'' 8),
               Invoke (ReadUsersetTuples 5 ''s'' 9), Done_fires 4 Canceled,
               Step 0, Step 0, Step 1, Step 1, Step 2, Step 2] :: (nat, nat) event list"
  obtain s where r: "run ?evs (probe_system 3) = Some s"
    by (simp add: probe_simps)
  have cs: "calls s = [Delegating (ReadUserTuple 3 ''store'' 0), Delegating (Read 4 ''st'' 8),
                       Delegating (ReadUsersetTuples 5 ''s'' 9)]"
    and b: "backend s = 0"
    and e: "ctx_err s 3 = None" "ctx_err s 4 = Some Canceled" "ctx_err s 5 = None"
    using r by (auto simp: probe_simps)
  have a1: "rd_ReadUserTuple probe_reader 3 None ''store'' 0 0
       = (([3, 5, 0, 0], Some ''not found''), 1)"
    and a2: "rd_Read probe_reader 4 (Some Canceled) ''st'' 8 0
       = (([4, 2, 8, 0], Some ''context done''), 1)"
    and a3: "rd_ReadUsersetTuples probe_reader 5 None ''s'' 9 0
       = (([5, 1, 1009, 0], None), 1)"
    by (simp_all add: probe_reader_def probe_answer_def)
  have "reachable (probe_system 3) s"
    using r reachable.start by (rule run_reachable)
  then have re: "reachable (boot (NewBoundedConcurrencyTupleReader probe_reader 3) 0 0) s"
    by (simp add: probe_system_def)
  note T = bounded_reader_passes_results_through [OF re]
  note m1 = T [THEN conjunct2, THEN conjunct1, rule_format]
  note m2 = T [THEN conjunct2, THEN conjunct2, THEN conjunct1, rule_format]
  note m3 = T [THEN conjunct2, THEN conjunct2, THEN conjunct2, THEN conjunct1, rule_format]
  from m1 [of 0 3 "''store''" 0] cs b e a1
  have f0: "fire (Step 0) s =
      Some (s\<lparr>backend := 1,
              calls := (calls s)
                [0 := Deferred (ReadUserTuple 3 ''store'' 0)
                        (Tuple_reply [3, 5, 0, 0] (Some ''not found''))]\<rparr>)"
    by (simp del: fire.simps)
  from m2 [of 1 4 "''st''" 8] cs b e a2
  have f1: "fire (Step 1) s =
      Some (s\<lparr>backend := 1,
              calls := (calls s)
                [1 := Deferred (Read 4 ''st'' 8)
                        (Iterator_reply [4, 2, 8, 0] (Some ''context done''))]\<rparr>)"
    by (simp del: fire.simps)
  from m3 [of 2 5 "''s''" 9] cs b e a3
  have f2: "fire (Step 2) s =
      Some (s\<lparr>backend := 1,
              calls := (calls s)
                [2 := Deferred (ReadUsersetTuples 5 ''s'' 9)
                        (Iterator_reply [5, 1, 1009, 0] None)]\<rparr>)"
    by (simp del: fire.simps)
  from r cs f0 f1 f2 a1 a2 a3 show ?thesis by (simp del: fire.simps)
qed

section \<open>Properties of the migration steps\<close>

lemma outcome_Cons_0: "outcome drv ctx (s # ss) d 0 = fst (drv ctx s d)"
  by (simp add: outcome_def conn_after_def)

lemma outcome_Cons_Suc:
  "outcome drv ctx (s # ss) d (Suc i) = outcome drv ctx ss (snd (drv ctx s d)) i"
  by (simp add: outcome_def conn_after_def)

lemma exec_stmts_all_succeed:
  "(\<And>i. i < length stmts \<Longrightarrow> outcome drv ctx stmts (conn tx) i = None) \<Longrightarrow>
   exec_stmts drv ctx stmts tx =
     (None, \<lparr>conn = conn_after drv ctx stmts (conn tx), sent = sent tx @ stmts\<rparr>)"
proof (induction stmts arbitrary: tx)
  case Nil
  show ?case by (simp add: conn_after_def)
next
  case (Cons s ss)
  obtain e d where sd: "drv ctx s (conn tx) = (e, d)" by (cases "drv ctx s (conn tx)")
  have "outcome drv ctx (s # ss) (conn tx) 0 = None" using Cons.prems by blast
  with sd have e: "e = None" by (simp add: outcome_Cons_0)
  let ?tx = "\<lparr>conn = d, sent = sent tx @ [s]\<rparr>"
  have rest: "outcome drv ctx ss (conn ?tx) i = None" if "i < length ss" for i
  proof -
    have "outcome drv ctx (s # ss) (conn tx) (Suc i) = None"
      using Cons.prems [of "Suc i"] that by simp
    then show ?thesis using sd by (simp add: outcome_Cons_Suc)
  qed
  have "exec_stmts drv ctx ss ?tx =
          (None, \<lparr>conn = conn_after drv ctx ss (conn ?tx), sent = sent ?tx @ ss\<rparr>)"
    by (rule Cons.IH) (rule rest)
  then show ?case using sd e by (simp add: ExecContext_def conn_after_def)
qed

lemma exec_stmts_first_failure:
  "k < length stmts \<Longrightarrow> outcome drv ctx stmts (conn tx) k = Some err \<Longrightarrow>
   (\<And>i. i < k \<Longrightarrow> outcome drv ctx stmts (conn tx) i = None) \<Longrightarrow>
   exec_stmts drv ctx stmts tx =
     (Some err, \<lparr>conn = conn_after drv ctx (take (Suc k) stmts) (conn tx),
                 sent = sent tx @ take (Suc k) stmts\<rparr>)"
proof (induction stmts arbitrary: tx k)
  case Nil
  then show ?case by simp
next
  case (Cons s ss)
  obtain e d where sd: "drv ctx s (conn tx) = (e, d)" by (cases "drv ctx s (conn tx)")
  show ?case
  proof (cases k)
    case 0
    with Cons.prems(2) sd have "e = Some err" by (simp add: outcome_Cons_0)
    with sd 0 show ?thesis by (simp add: ExecContext_def conn_after_def)
  next
    case (Suc j)
    have "outcome drv ctx (s # ss) (conn tx) 0 = None" using Cons.prems(3) Suc by blast
    with sd have e: "e = None" by (simp add: outcome_Cons_0)
    let ?tx = "\<lparr>conn = d, sent = sent tx @ [s]\<rparr>"
    have j: "j < length ss" using Cons.prems(1) Suc by simp
    have fail: "outcome drv ctx ss (conn ?tx) j = Some err"
      using Cons.prems(2) Suc sd by (simp add: outcome_Cons_Suc)
    have before: "outcome drv ctx ss (conn ?tx) i = None" if "i < j" for i
    proof -
      have "outcome drv ctx (s # ss) (conn tx) (Suc i) = None"
        using Cons.prems(3) [of "Suc i"] that Suc by simp
      then show ?thesis using sd by (simp add: outcome_Cons_Suc)
    qed
    have "exec_stmts drv ctx ss ?tx =
            (Some err, \<lparr>conn = conn_after drv ctx (take (Suc j) ss) (conn ?tx),
                        sent = sent ?tx @ take (Suc j) ss\<rparr>)"
      using j fail before by (rule Cons.IH)
    then show ?thesis using sd e Suc by (simp add: ExecContext_def conn_after_def)
  qed
qed

text \<open>
  Claim C6. For the forward step \<open>up005\<close> and the backward step \<open>down005\<close>: the
  statements go to the driver in list order; when statement \<open>k\<close> is the first one the
  driver fails, the step returns that statement's error and has sent exactly the first
  \<open>k + 1\<close> statements (none after the failing one); when the driver fails none, the
  step returns nil and has sent the whole list.
\<close>

theorem migration005_first_failure_aborts:
  assumes "(mig, stmts) = (up005, up005_stmts) \<or> (mig, stmts) = (down005, down005_stmts)"
  shows "((\<forall>i < length stmts. outcome drv ctx stmts (conn tx) i = None) \<longrightarrow>
            mig drv ctx tx =
              (None, \<lparr>conn = conn_after drv ctx stmts (conn tx), sent = sent tx @ stmts\<rparr>))
       \<and> (k < length stmts \<and> outcome drv ctx stmts (conn tx) k = Some err \<and>
            (\<forall>i < k. outcome drv ctx stmts (conn tx) i = None) \<longrightarrow>
            mig drv ctx tx =
              (Some err, \<lparr>conn = conn_after drv ctx (take (Suc k) stmts) (conn tx),
                          sent = sent tx @ take (Suc k) stmts\<rparr>))"
proof -
  have body: "mig drv ctx tx = exec_stmts drv ctx stmts tx"
    using assms by (auto simp: up005_def down005_def)
  show ?thesis
    unfolding body
    by (intro conjI impI exec_stmts_all_succeed exec_stmts_first_failure) auto
qed

theorem migration005_first_failure_aborts_witness:
  "(1::nat) < length up005_stmts
   \<and> outcome (\<lambda>c s d. (if s = up005_stmts ! 1 then Some (7::nat) else None, Suc d))
         () up005_stmts (0::nat) 1 = Some 7
   \<and> outcome (\<lambda>c s d. (if s = up005_stmts ! 1 then Some (7::nat) else None, Suc d))
         () up005_stmts (0::nat) 0 = None
   \<and> up005 (\<lambda>c s d. (if s = up005_stmts ! 1 then Some (7::nat) else None, Suc d))
         () \<lparr>conn = 0::nat, sent = []\<rparr>
       = (Some 7, \<lparr>conn = 2, sent = up005_stmts\<rparr>)"
proof -
  let ?drv = "\<lambda>(c::unit) s (d::nat). (if s = up005_stmts ! 1 then Some (7::nat) else None, Suc d)"
  let ?tx = "\<lparr>conn = 0::nat, sent = []\<rparr>"
  have h1: "(1::nat) < length up005_stmts" by (simp add: up005_stmts_def)
  have h2: "outcome ?drv () up005_stmts (conn ?tx) 1 = Some 7"
    by (simp add: outcome_def conn_after_def up005_stmts_def)
  have h3: "\<forall>i<1. outcome ?drv () up005_stmts (conn ?tx) i = None"
    by (simp add: outcome_def conn_after_def up005_stmts_def)
  have "up005 ?drv () ?tx =
      (Some 7, \<lparr>conn = conn_after ?drv () (take (Suc 1) up005_stmts) (conn ?tx),
                sent = sent ?tx @ take (Suc 1) up005_stmts\<rparr>)"
    using migration005_first_failure_aborts [where mig = up005 and stmts = up005_stmts
        and k = 1 and drv = ?drv and ctx = "()" and tx = ?tx and err = 7] h1 h2 h3
    by blast
  moreover have "conn_after ?drv () (take (Suc 1) up005_stmts) (0::nat) = 2"
    by (simp add: conn_after_def up005_stmts_def)
  moreover have "take (Suc 1) up005_stmts = up005_stmts" by (simp add: up005_stmts_def)
  ultimately show ?thesis using h1 h2 h3 by simp
qed

section \<open>Properties of the composition root\<close>


lemma switch_DatastoreEngine_trace:
  "\<not> list_ex is_Migrations_Apply (fst (switch_DatastoreEngine w logger config))
   \<and> \<not> list_ex is_Server_Run (fst (switch_DatastoreEngine w logger config))
   \<and> \<not> list_ex is_Call_server_New (fst (switch_DatastoreEngine w logger config))
   \<and> \<not> list_ex is_authenticator_call (fst (switch_DatastoreEngine w logger config))"
  by (simp add: switch_DatastoreEngine_def Let_def split: option.splits)

lemma switch_AuthMethod_trace:
  "\<not> list_ex is_Migrations_Apply (fst (switch_AuthMethod w config))
   \<and> \<not> list_ex is_Server_Run (fst (switch_AuthMethod w config))
   \<and> \<not> list_ex is_Call_server_New (fst (switch_AuthMethod w config))"
  by (simp add: switch_AuthMethod_def)

lemma buildServerAndDatastore_trace:
  "\<not> list_ex is_Migrations_Apply (fst (buildServerAndDatastore w logger))
   \<and> \<not> list_ex is_Server_Run (fst (buildServerAndDatastore w logger))"
proof (cases "envconfig_Process w")
  case (Inl err)
  then show ?thesis by (simp add: buildServerAndDatastore_def)
next
  case (Inr config)
  obtain tr1 r1 where e: "switch_DatastoreEngine w logger config = (tr1, r1)"
    by (cases "switch_DatastoreEngine w logger config")
  obtain tr2 r2 where a: "switch_AuthMethod w config = (tr2, r2)"
    by (cases "switch_AuthMethod w config")
  have t1: "\<not> list_ex is_Migrations_Apply tr1 \<and> \<not> list_ex is_Server_Run tr1"
    using switch_DatastoreEngine_trace [of w logger config] e by simp
  have t2: "\<not> list_ex is_Migrations_Apply tr2 \<and> \<not> list_ex is_Server_Run tr2"
    using switch_AuthMethod_trace [of w config] a by simp
  show ?thesis
    using Inr e a t1 t2
    by (simp add: buildServerAndDatastore_def Let_def split: sum.splits option.splits)
qed

lemma main_no_migrations: "\<not> list_ex is_Migrations_Apply (main w)"
proof (cases "NewZapLogger w")
  case (Some err)
  then show ?thesis by (simp add: main_def)
next
  case None
  obtain tr r where b: "buildServerAndDatastore w ZapLogger = (tr, r)"
    by (cases "buildServerAndDatastore w ZapLogger")
  have "\<not> list_ex is_Migrations_Apply tr"
    using buildServerAndDatastore_trace [of w ZapLogger] b by simp
  then show ?thesis
    using None b by (simp add: main_def split: sum.splits option.splits prod.splits)
qed




text \<open>
  Claim C4 as stated: with the relational engine selected, pending migrations are
  applied before the server starts serving. With the postgres engine configured and
  every collaborator succeeding, the process reaches \<^verbatim>\<open>Run\<close> and nothing before it in
  its trace applies a migration.
\<close>

theorem migrations_at_startup_counterexample:
  "DatastoreEngine postgres_config = ''postgres''
   \<and> list_ex is_Server_Run (main (world_ok postgres_config))
   \<and> \<not> migrates_before_serving (main (world_ok postgres_config))"
  by (simp add: migrates_before_serving_def main_def buildServerAndDatastore_def
      switch_DatastoreEngine_def switch_AuthMethod_def world_ok_def postgres_config_def
      defaults_def Let_def)

text \<open>
  Claim C4, amended. The composition root applies no migration, whatever the engine.
  With the postgres engine selected, the first two things the process does (its logger
  built) are to log the engine choice and to construct the datastore from the
  connection URI with the logger and tracer options; when that construction fails the
  process ends there with a fatal log entry.
\<close>

theorem composition_root_applies_no_migrations:
  "\<not> list_ex is_Migrations_Apply (main w)
   \<and> (NewZapLogger w = None \<and> envconfig_Process w = Inr config
        \<and> DatastoreEngine config = ''postgres'' \<longrightarrow>
      take 2 (main w) =
        [Logger_Info ''using 'postgres' storage engine'',
         Call_NewPostgresDatastore (DatastoreConnectionURI config)
           [WithLogger ZapLogger, WithTracer NoopTracer]]
      \<and> (\<forall>err. NewPostgresDatastore w (DatastoreConnectionURI config)
                  [WithLogger ZapLogger, WithTracer NoopTracer] = Some err \<longrightarrow>
             drop 2 (main w) =
               [Logger_Fatal ''failed to initialize openfga server''
                  (''failed to initialize postgres datastore: '' @ err)]))"
proof (intro conjI impI allI)
  show "\<not> list_ex is_Migrations_Apply (main w)" by (rule main_no_migrations)
next
  assume h: "NewZapLogger w = None \<and> envconfig_Process w = Inr config
      \<and> DatastoreEngine config = ''postgres''"
  obtain tr2 r2 where a: "switch_AuthMethod w config = (tr2, r2)"
    by (cases "switch_AuthMethod w config")
  show "take 2 (main w) =
        [Logger_Info ''using 'postgres' storage engine'',
         Call_NewPostgresDatastore (DatastoreConnectionURI config)
           [WithLogger ZapLogger, WithTracer NoopTracer]]"
    using h a
    by (simp add: main_def buildServerAndDatastore_def switch_DatastoreEngine_def Let_def
        split: option.splits sum.splits)
next
  fix err
  assume h: "NewZapLogger w = None \<and> envconfig_Process w = Inr config
      \<and> DatastoreEngine config = ''postgres''"
    and f: "NewPostgresDatastore w (DatastoreConnectionURI config)
              [WithLogger ZapLogger, WithTracer NoopTracer] = Some err"
  show "drop 2 (main w) =
          [Logger_Fatal ''failed to initialize openfga server''
             (''failed to initialize postgres datastore: '' @ err)]"
    using h f
    by (simp add: main_def buildServerAndDatastore_def switch_DatastoreEngine_def Let_def)
qed

theorem composition_root_applies_no_migrations_witness:
  "NewZapLogger (world_ok postgres_config) = None
   \<and> envconfig_Process (world_ok postgres_config) = Inr postgres_config
   \<and> DatastoreEngine postgres_config = ''postgres''
   \<and> \<not> list_ex is_Migrations_Apply (main (world_ok postgres_config))
   \<and> take 2 (main (world_ok postgres_config)) =
        [Logger_Info ''using 'postgres' storage engine'',
         Call_NewPostgresDatastore ''postgres://localhost:5432/openfga''
           [WithLogger ZapLogger, WithTracer NoopTracer]]"
proof -
  have h: "NewZapLogger (world_ok postgres_config) = None
      \<and> envconfig_Process (world_ok postgres_config) = Inr postgres_config
      \<and> DatastoreEngine postgres_config = ''postgres''"
    by (simp add: world_ok_def postgres_config_def defaults_def)
  have u: "DatastoreConnectionURI postgres_config = ''postgres://localhost:5432/openfga''"
    by (simp add: postgres_config_def)
  from composition_root_applies_no_migrations
         [of "world_ok postgres_config" postgres_config] h u
  show ?thesis by simp
qed

text \<open>
  Claim C7. When the configured engine name is neither \<^verbatim>\<open>memory\<close> nor \<^verbatim>\<open>postgres\<close>,
  \<open>buildServerAndDatastore\<close> returns the error naming the engine, having called no
  collaborator; \<open>main\<close> then ends with the fatal log entry, and its trace holds neither
  the construction of the server nor \<^verbatim>\<open>Run\<close>, where the listeners open.
\<close>

theorem unsupported_engine_is_fatal:
  assumes "envconfig_Process w = Inr config"
      and "DatastoreEngine config \<noteq> ''memory''"
      and "DatastoreEngine config \<noteq> ''postgres''"
  shows "buildServerAndDatastore w logger =
           ([], Inl (''storage engine '' @ [CHR 0x27] @ DatastoreEngine config @ [CHR 0x27]
                       @ '' is unsupported''))
       \<and> (NewZapLogger w = None \<longrightarrow>
            main w =
              [Logger_Fatal ''failed to initialize openfga server''
                 (''storage engine '' @ [CHR 0x27] @ DatastoreEngine config @ [CHR 0x27]
                    @ '' is unsupported'')])
       \<and> \<not> list_ex is_Server_Run (main w)
       \<and> \<not> list_ex is_Call_server_New (main w)"
proof -
  have b: "buildServerAndDatastore w logger =
           ([], Inl (''storage engine '' @ [CHR 0x27] @ DatastoreEngine config @ [CHR 0x27]
                       @ '' is unsupported''))" for logger
    using assms by (simp add: buildServerAndDatastore_def switch_DatastoreEngine_def)
  show ?thesis
    using b [of logger] b [of ZapLogger]
    by (simp add: main_def split: option.splits)
qed

theorem unsupported_engine_is_fatal_witness:
  "envconfig_Process (world_ok (defaults\<lparr>DatastoreEngine := ''mysql''\<rparr>))
     = Inr (defaults\<lparr>DatastoreEngine := ''mysql''\<rparr>)
   \<and> DatastoreEngine (defaults\<lparr>DatastoreEngine := ''mysql''\<rparr>) \<noteq> ''memory''
   \<and> DatastoreEngine (defaults\<lparr>DatastoreEngine := ''mysql''\<rparr>) \<noteq> ''postgres''
   \<and> main (world_ok (defaults\<lparr>DatastoreEngine := ''mysql''\<rparr>)) =
       [Logger_Fatal ''failed to initialize openfga server''
          ''storage engine 'mysql' is unsupported'']"
proof -
  let ?c = "defaults\<lparr>DatastoreEngine := ''mysql''\<rparr>"
  have h1: "envconfig_Process (world_ok ?c) = Inr ?c" by (simp add: world_ok_def)
  have h2: "DatastoreEngine ?c \<noteq> ''memory''" by simp
  have h3: "DatastoreEngine ?c \<noteq> ''postgres''" by simp
  have l: "NewZapLogger (world_ok ?c) = None" by (simp add: world_ok_def)
  from unsupported_engine_is_fatal [OF h1 h2 h3, of ZapLogger] l h1 h2 h3
  show ?thesis by simp
qed

text \<open>
  Claim C9. When the configured authentication method is any string other than
  \<^verbatim>\<open>preshared\<close> and \<^verbatim>\<open>oidc\<close>: the switch calls no authenticator constructor and yields the
  nil authenticator with no error; \<open>buildServerAndDatastore\<close> does exactly what it does
  with the method \<^verbatim>\<open>none\<close>; a server it returns has no authenticator and no
  interceptor; and it does return one whenever the engine is built and \<^verbatim>\<open>server.New\<close>
  succeeds.
\<close>

theorem unrecognized_auth_method_means_none:
  assumes "envconfig_Process w = Inr config"
      and "AuthMethod config \<noteq> ''preshared''"
      and "AuthMethod config \<noteq> ''oidc''"
  shows "switch_AuthMethod w config = ([], Inr None)
       \<and> buildServerAndDatastore w logger =
           buildServerAndDatastore
             (w\<lparr>envconfig_Process := Inr (config\<lparr>AuthMethod := ''none''\<rparr>)\<rparr>) logger
       \<and> \<not> list_ex is_authenticator_call (fst (buildServerAndDatastore w logger))
       \<and> (\<forall>ds srv. snd (buildServerAndDatastore w logger) = Inr (ds, srv) \<longrightarrow>
            dep_Authenticator (srv_Dependencies srv) = None
            \<and> cfg_UnaryInterceptors (srv_Config srv) = [])
       \<and> ((\<exists>tr ds. switch_DatastoreEngine w logger config = (tr, Inr ds))
            \<and> (\<forall>deps cfg. server_New w deps cfg = None) \<longrightarrow>
          (\<exists>ds srv. snd (buildServerAndDatastore w logger) = Inr (ds, srv)))"
proof -
  have a: "switch_AuthMethod w config = ([], Inr None)"
    using assms by (simp add: switch_AuthMethod_def)
  obtain tr1 r1 where e: "switch_DatastoreEngine w logger config = (tr1, r1)"
    by (cases "switch_DatastoreEngine w logger config")
  have t1: "\<not> list_ex is_authenticator_call tr1"
    using switch_DatastoreEngine_trace [of w logger config] e by simp
  have same: "buildServerAndDatastore w logger =
           buildServerAndDatastore
             (w\<lparr>envconfig_Process := Inr (config\<lparr>AuthMethod := ''none''\<rparr>)\<rparr>) logger"
  proof -
    let ?w = "w\<lparr>envconfig_Process := Inr (config\<lparr>AuthMethod := ''none''\<rparr>)\<rparr>"
    let ?c = "config\<lparr>AuthMethod := ''none''\<rparr>"
    have e': "switch_DatastoreEngine ?w logger ?c = switch_DatastoreEngine w logger config"
      by (simp add: switch_DatastoreEngine_def Let_def split: option.splits)
    have a': "switch_AuthMethod ?w ?c = ([], Inr None)"
      by (simp add: switch_AuthMethod_def)
    show ?thesis
      using assms(1) a a' e' by (simp add: buildServerAndDatastore_def)
  qed
  have calls: "\<not> list_ex is_authenticator_call (fst (buildServerAndDatastore w logger))"
    using assms(1) a e t1
    by (simp add: buildServerAndDatastore_def Let_def split: sum.splits option.splits)
  have shape: "\<forall>ds srv. snd (buildServerAndDatastore w logger) = Inr (ds, srv) \<longrightarrow>
            dep_Authenticator (srv_Dependencies srv) = None
            \<and> cfg_UnaryInterceptors (srv_Config srv) = []"
    using assms(1) a e
    by (auto simp: buildServerAndDatastore_def Let_def split: sum.splits option.splits)
  have ok: "(\<exists>tr ds. switch_DatastoreEngine w logger config = (tr, Inr ds))
            \<and> (\<forall>deps cfg. server_New w deps cfg = None) \<longrightarrow>
          (\<exists>ds srv. snd (buildServerAndDatastore w logger) = Inr (ds, srv))"
    using assms(1) a
    by (auto simp: buildServerAndDatastore_def Let_def split: sum.splits option.splits)
  from a same calls shape ok show ?thesis by blast
qed

theorem unrecognized_auth_method_means_none_witness:
  "envconfig_Process (world_ok (defaults\<lparr>AuthMethod := ''preshard''\<rparr>))
     = Inr (defaults\<lparr>AuthMethod := ''preshard''\<rparr>)
   \<and> AuthMethod (defaults\<lparr>AuthMethod := ''preshard''\<rparr>) \<noteq> ''preshared''
   \<and> AuthMethod (defaults\<lparr>AuthMethod := ''preshard''\<rparr>) \<noteq> ''oidc''
   \<and> switch_AuthMethod (world_ok (defaults\<lparr>AuthMethod := ''preshard''\<rparr>))
        (defaults\<lparr>AuthMethod := ''preshard''\<rparr>) = ([], Inr None)
   \<and> buildServerAndDatastore (world_ok (defaults\<lparr>AuthMethod := ''preshard''\<rparr>)) ZapLogger
       = buildServerAndDatastore (world_ok defaults) ZapLogger"
proof -
  let ?c = "defaults\<lparr>AuthMethod := ''preshard''\<rparr>"
  have h1: "envconfig_Process (world_ok ?c) = Inr ?c" by (simp add: world_ok_def)
  have h2: "AuthMethod ?c \<noteq> ''preshared''" by simp
  have h3: "AuthMethod ?c \<noteq> ''oidc''" by simp
  have n: "(world_ok ?c)\<lparr>envconfig_Process := Inr (?c\<lparr>AuthMethod := ''none''\<rparr>)\<rparr>
             = world_ok defaults"
    by (simp add: world_ok_def defaults_def)
  from unrecognized_auth_method_means_none [OF h1 h2 h3, of ZapLogger] n h1 h2 h3
  show ?thesis by simp
qed

end
